theory Spec2Isabelle
  imports Complex_Main "HOL-Library.AList"
begin

section \<open>Values, listeners and configuration\<close>

text \<open>
  The values that travel through the emitter (event arguments, return values of
  listeners, thrown values) are JavaScript values. The emitter only ever compares a
  return value with \<open>false\<close> and passes everything else along, so a small universe is
  enough; \<open>VTypeError\<close> is the \<open>TypeError\<close> the engine throws when a property of
  \<open>undefined\<close> is read. A function reference is a \<open>nat\<close>: equality of the numbers is
  the identity comparison \<open>===\<close> of the functions.
\<close>

datatype val = VUndefined | VBool bool | VNum int | VStr string | VObj nat | VTypeError

text \<open>How one invocation of a user function ends.\<close>

datatype outcome = Returned val | Thrown val

text \<open>
  A JavaScript number: a double is a rational number or one of three special values
  (\<open>-0\<close> is \<open>Num 0\<close>, which it equals under \<open>===\<close>; \<open>NaN\<close> equals no number, the
  number of elements of an array is never \<open>NaN\<close>).
\<close>

datatype number = Num rat | NaN | Infinity | NegInfinity

text \<open>
  \<open>IConfiguration\<close> of \<open>Events/Common.ts\<close>. A field holds a value or \<open>undefined\<close>
  (\<open>None\<close>), which a partial configuration can write into it. Read as a condition,
  \<open>undefined\<close> is false.
\<close>

record IConfiguration =
  interruptable :: "bool option"
  continueOnError :: "bool option"
  maxListeners :: "number option"

definition truthy :: "bool option \<Rightarrow> bool" where
  "truthy b = (b = Some True)"

text \<open>
  \<open>Partial<IConfiguration>\<close>: a key is absent, or present with a value or with
  \<open>undefined\<close>.
\<close>

datatype 'a partial = Absent | Present "'a option"

record PartialConfiguration =
  p_interruptable :: "bool partial"
  p_continueOnError :: "bool partial"
  p_maxListeners :: "number partial"

text \<open>
  The object spread \<open>{ ...c, ...p }\<close>: a fresh object in which every key present in
  \<open>p\<close> wins, also with the value \<open>undefined\<close>.
\<close>

definition spread :: "IConfiguration \<Rightarrow> PartialConfiguration \<Rightarrow> IConfiguration" where
  "spread c p =
     \<lparr> interruptable =
         (case p_interruptable p of Absent \<Rightarrow> interruptable c | Present v \<Rightarrow> v),
       continueOnError =
         (case p_continueOnError p of Absent \<Rightarrow> continueOnError c | Present v \<Rightarrow> v),
       maxListeners =
         (case p_maxListeners p of Absent \<Rightarrow> maxListeners c | Present v \<Rightarrow> v) \<rparr>"

definition DEFAULT_CONFIGURATION :: IConfiguration where
  "DEFAULT_CONFIGURATION =
     \<lparr> interruptable = Some False, continueOnError = Some False,
       maxListeners = Some (Num 10) \<rparr>"

record ListenerInfo =
  callback :: nat
  once :: bool

definition new_ListenerInfo :: "nat \<Rightarrow> bool \<Rightarrow> ListenerInfo" where
  "new_ListenerInfo cb is_once = \<lparr> callback = cb, once = is_once \<rparr>"

record EventInfo =
  config :: IConfiguration
  listeners :: "ListenerInfo list"

definition new_EventInfo :: "IConfiguration \<Rightarrow> EventInfo" where
  "new_EventInfo c = \<lparr> config = c, listeners = [] \<rparr>"

section \<open>Plain objects as tables\<close>

text \<open>
  The table of event records and the tables of the filter manager are plain objects
  \<open>{}\<close>. Their own keys are kept in an association list in the order in which
  \<open>Object.keys\<close> and \<open>for ... in\<close> list them: the keys that are array indices first, in
  ascending numeric order, then the other keys in the order they were created.
\<close>

definition digit :: "char \<Rightarrow> nat" where
  "digit c = of_char c - 48"

definition decimal :: "string \<Rightarrow> nat" where
  "decimal s = foldl (\<lambda>n c. 10 * n + digit c) 0 s"

text \<open>
  An array index is a canonical decimal numeral (no leading zero) below \<open>2\<^sup>3\<^sup>2 - 1\<close>.
\<close>

definition array_index :: "string \<Rightarrow> nat option" where
  "array_index s =
     (if s \<noteq> [] \<and> list_all (\<lambda>c. c \<in> set ''0123456789'') s \<and>
         (s = ''0'' \<or> hd s \<noteq> CHR ''0'') \<and> decimal s < 4294967295
      then Some (decimal s) else None)"

text \<open>A new array-index key goes before the first key that is not a smaller index.\<close>

fun insert_index :: "nat \<Rightarrow> string \<Rightarrow> 'v \<Rightarrow> (string \<times> 'v) list \<Rightarrow> (string \<times> 'v) list" where
  "insert_index i k v [] = [(k, v)]"
| "insert_index i k v ((k', v') # xs) =
     (case array_index k' of
        Some j \<Rightarrow> if j < i then (k', v') # insert_index i k v xs else (k, v) # (k', v') # xs
      | None \<Rightarrow> (k, v) # (k', v') # xs)"

text \<open>
  The assignment \<open>obj[k] = v\<close>: an existing own key keeps its place, a new one is put
  where the order of keys wants it.
\<close>

definition js_put :: "string \<Rightarrow> 'v \<Rightarrow> (string \<times> 'v) list \<Rightarrow> (string \<times> 'v) list" where
  "js_put k v xs =
     (if k \<in> fst ` set xs then AList.update k v xs
      else case array_index k of
             Some i \<Rightarrow> insert_index i k v xs
           | None \<Rightarrow> xs @ [(k, v)])"

text \<open>
  A read \<open>obj[k]\<close> of a key that is not an own key goes on to \<open>Object.prototype\<close>.
  These are the names it defines. The member found under each of them is truthy, and it
  is a function or \<open>Object.prototype\<close> itself, so its property \<open>listeners\<close> is
  \<open>undefined\<close>. The model assumes that the rest of the program adds nothing to
  \<open>Object.prototype\<close> and removes nothing from it.
\<close>

definition Object_prototype :: "string list" where
  "Object_prototype =
     [''constructor'', ''__defineGetter__'', ''__defineSetter__'', ''hasOwnProperty'',
      ''__lookupGetter__'', ''__lookupSetter__'', ''isPrototypeOf'',
      ''propertyIsEnumerable'', ''toString'', ''valueOf'', ''__proto__'',
      ''toLocaleString'']"

text \<open>
  \<open>Array.prototype.splice(start, deleteCount)\<close> without inserted items: the removed
  elements and the array afterwards. A negative \<open>start\<close> counts from the end, an absent
  \<open>deleteCount\<close> removes up to the end.
\<close>

definition splice :: "int \<Rightarrow> nat option \<Rightarrow> 'a list \<Rightarrow> 'a list \<times> 'a list" where
  "splice start deleteCount xs =
     (let n = length xs;
          s = (if start < 0 then nat (max (int n + start) 0) else min (nat start) n);
          d = (case deleteCount of None \<Rightarrow> n - s | Some c \<Rightarrow> min c (n - s))
      in (take d (drop s xs), take s xs @ drop (s + d) xs))"

section \<open>The emitter\<close>

text \<open>
  The emitter: its global configuration and the table of event records. Configuration
  objects are never written in place (every update assigns a fresh spread), so sharing
  the global configuration object with a new record, as \<open>new EventInfo(this[P_CONFIG])\<close>
  does, behaves like a copy and records can hold configurations by value.

  The one thing the emitter itself can add to \<open>Object.prototype\<close> is the property
  \<open>config\<close>, by \<open>configEvent("__proto__", ...)\<close>; \<open>proto_config\<close> records that this has
  happened. From then on \<open>config\<close> is an inherited name as well (it names a
  configuration object, which has no \<open>listeners\<close> either).
\<close>

record EventEmitter =
  P_CONFIG :: IConfiguration
  P_EVENT_SLOTS :: "(string \<times> EventInfo) list"
  proto_config :: bool

datatype error = E_EXCEED_MAX_LISTENERS | TypeError

definition new_EventEmitter :: "PartialConfiguration option \<Rightarrow> EventEmitter" where
  "new_EventEmitter cfg =
     \<lparr> P_CONFIG = (case cfg of None \<Rightarrow> DEFAULT_CONFIGURATION
                    | Some p \<Rightarrow> spread DEFAULT_CONFIGURATION p),
       P_EVENT_SLOTS = [],
       proto_config = False \<rparr>"

text \<open>
  \<open>inherited this event\<close>: the read \<open>this[P_EVENT_SLOTS][event]\<close>, when \<open>event\<close> is
  not an own key of the table, finds a member of \<open>Object.prototype\<close>.
\<close>

definition inherited :: "EventEmitter \<Rightarrow> string \<Rightarrow> bool" where
  "inherited this event \<longleftrightarrow>
     event \<in> set Object_prototype \<or> (proto_config this \<and> event = ''config'')"

text \<open>Writing to \<open>ev.listeners\<close> of the record of an event, and storing a record.\<close>

definition set_listeners :: "string \<Rightarrow> ListenerInfo list \<Rightarrow> EventEmitter \<Rightarrow> EventEmitter" where
  "set_listeners event ls this =
     this\<lparr> P_EVENT_SLOTS :=
       AList.map_entry event (\<lambda>ev. ev\<lparr> listeners := ls \<rparr>) (P_EVENT_SLOTS this) \<rparr>"

definition set_slot :: "string \<Rightarrow> EventInfo \<Rightarrow> EventEmitter \<Rightarrow> EventEmitter" where
  "set_slot event ev this =
     this\<lparr> P_EVENT_SLOTS := js_put event ev (P_EVENT_SLOTS this) \<rparr>"

section \<open>Registration, inspection and removal\<close>

text \<open>
  \<open>on\<close> and \<open>once\<close>. For an inherited name \<open>ev\<close> is the inherited member: no record is
  made, and the capacity check \<open>ev.config.maxListeners === ev.listeners.length\<close> throws
  a \<open>TypeError\<close>, since \<open>ev.config\<close> or \<open>ev.listeners\<close> is \<open>undefined\<close>. Otherwise
  the record is created before the capacity check, so the state is returned also when
  the call throws. The check is the strict equality of \<open>maxListeners\<close> and the length.
\<close>

definition on :: "string \<Rightarrow> nat \<Rightarrow> EventEmitter \<Rightarrow> (error + unit) \<times> EventEmitter" where
  "on event cb this =
     (if map_of (P_EVENT_SLOTS this) event = None \<and> inherited this event
      then (Inl TypeError, this)
      else
        let (ev, this1) =
              (case map_of (P_EVENT_SLOTS this) event of
                 Some ev \<Rightarrow> (ev, this)
               | None \<Rightarrow> (new_EventInfo (P_CONFIG this),
                           set_slot event (new_EventInfo (P_CONFIG this)) this))
        in if maxListeners (config ev) = Some (Num (of_nat (length (listeners ev))))
           then (Inl E_EXCEED_MAX_LISTENERS, this1)
           else (Inr (),
                 set_listeners event (listeners ev @ [new_ListenerInfo cb False]) this1))"

definition addListener :: "string \<Rightarrow> nat \<Rightarrow> EventEmitter \<Rightarrow> (error + unit) \<times> EventEmitter" where
  "addListener event cb this = on event cb this"

definition once_m :: "string \<Rightarrow> nat \<Rightarrow> EventEmitter \<Rightarrow> (error + unit) \<times> EventEmitter" where
  "once_m event cb this =
     (if map_of (P_EVENT_SLOTS this) event = None \<and> inherited this event
      then (Inl TypeError, this)
      else
        let (ev, this1) =
              (case map_of (P_EVENT_SLOTS this) event of
                 Some ev \<Rightarrow> (ev, this)
               | None \<Rightarrow> (new_EventInfo (P_CONFIG this),
                           set_slot event (new_EventInfo (P_CONFIG this)) this))
        in if maxListeners (config ev) = Some (Num (of_nat (length (listeners ev))))
           then (Inl E_EXCEED_MAX_LISTENERS, this1)
           else (Inr (),
                 set_listeners event (listeners ev @ [new_ListenerInfo cb True]) this1))"

definition addOnceListener :: "string \<Rightarrow> nat \<Rightarrow> EventEmitter \<Rightarrow> (error + unit) \<times> EventEmitter" where
  "addOnceListener event cb this = once_m event cb this"

definition eventNames :: "EventEmitter \<Rightarrow> string list" where
  "eventNames this = map fst (P_EVENT_SLOTS this)"

text \<open>
  The three inspections read \<open>ev.listeners\<close> whenever \<open>ev\<close> is truthy, which throws a
  \<open>TypeError\<close> for an inherited name.
\<close>

definition hasListener :: "string \<Rightarrow> nat \<Rightarrow> EventEmitter \<Rightarrow> error + bool" where
  "hasListener event cb this =
     (case map_of (P_EVENT_SLOTS this) event of
        None \<Rightarrow> if inherited this event then Inl TypeError else Inr False
      | Some ev \<Rightarrow> Inr (length (filter (\<lambda>x. callback x = cb) (listeners ev)) > 0))"

definition listeners_m :: "string \<Rightarrow> EventEmitter \<Rightarrow> error + nat list" where
  "listeners_m event this =
     (case map_of (P_EVENT_SLOTS this) event of
        Some ev \<Rightarrow> Inr (map callback (listeners ev))
      | None \<Rightarrow> if inherited this event then Inl TypeError else Inr [])"

definition listenerCount :: "string \<Rightarrow> EventEmitter \<Rightarrow> error + nat" where
  "listenerCount event this =
     (case map_of (P_EVENT_SLOTS this) event of
        Some ev \<Rightarrow> Inr (length (listeners ev))
      | None \<Rightarrow> if inherited this event then Inl TypeError else Inr 0)"

text \<open>
  The loop of \<open>off\<close>. The index is a \<open>nat\<close>: \<open>splice(i--, 1)\<close> removes the entry at
  \<open>i\<close> and steps the index back, the loop header steps it forward again, so the next
  round runs at the same \<open>i\<close> (the \<open>-1\<close> in between, at \<open>i = 0\<close>, is never read).
\<close>

function off_loop :: "nat \<Rightarrow> nat \<Rightarrow> ListenerInfo list \<Rightarrow> ListenerInfo list" where
  "off_loop cb i ls =
     (if i < length ls then
        (if callback (ls ! i) = cb
         then off_loop cb i (snd (splice (int i) (Some 1) ls))
         else off_loop cb (i + 1) ls)
      else ls)"
  by pat_completeness auto
termination
  by (relation "measure (\<lambda>(cb, i, ls). length ls - i)")
     (auto simp: splice_def Let_def)

text \<open>
  \<open>off\<close>: with a callback the matching entries are spliced out first; then, in every
  call shape, \<open>splice(0)\<close> empties the array and the length of what that last splice
  removed is returned. For an inherited name both paths read \<open>ev.listeners\<close> of the
  inherited member and throw a \<open>TypeError\<close>.
\<close>

definition off :: "string \<Rightarrow> nat option \<Rightarrow> EventEmitter \<Rightarrow> (error + nat) \<times> EventEmitter" where
  "off event cbo this =
     (case map_of (P_EVENT_SLOTS this) event of
        None \<Rightarrow> if inherited this event then (Inl TypeError, this) else (Inr 0, this)
      | Some ev \<Rightarrow>
          (let ls1 = (case cbo of Some cb \<Rightarrow> off_loop cb 0 (listeners ev)
                                | None \<Rightarrow> listeners ev);
               (removed, ls2) = splice 0 None ls1
           in (Inr (length removed), set_listeners event ls2 this)))"

definition removeListener ::
  "string \<Rightarrow> nat option \<Rightarrow> EventEmitter \<Rightarrow> (error + nat) \<times> EventEmitter" where
  "removeListener event cbo this = off event cbo this"

text \<open>
  The two call shapes of \<open>configEvent\<close>. For an inherited name the assignment
  \<open>ev.config = ...\<close> writes a property of the inherited member and the table gets no
  record; when that member is \<open>Object.prototype\<close> itself (the name \<open>__proto__\<close>),
  \<open>config\<close> becomes an inherited name.
\<close>

datatype configEvent_args =
  ForEvent string PartialConfiguration
| Global PartialConfiguration

fun configEvent :: "configEvent_args \<Rightarrow> EventEmitter \<Rightarrow> EventEmitter" where
  "configEvent (ForEvent event p) this =
     (case map_of (P_EVENT_SLOTS this) event of
        Some ev \<Rightarrow> set_slot event (ev\<lparr> config := spread (config ev) p \<rparr>) this
      | None \<Rightarrow>
          if inherited this event
          then (if event = ''__proto__'' then this\<lparr> proto_config := True \<rparr> else this)
          else set_slot event (new_EventInfo (spread (P_CONFIG this) p)) this)"
| "configEvent (Global p) this = this\<lparr> P_CONFIG := spread (P_CONFIG this) p \<rparr>"

section \<open>Dispatch\<close>

text \<open>
  A listener is a user function. What it does when it is called is given from outside
  by a behaviour: from the function reference, the arguments, the emitter it is applied
  to (\<open>callback.apply(this, args)\<close>) and the state of the rest of the program \<open>'w\<close>, to
  the outcome of the call, the emitter as the listener leaves it, and the new state of
  the rest of the program. A listener changes the emitter by calling its methods; no
  method removes or replaces the record of an event or its array of listeners, so the
  \<open>ev.listeners\<close> that the loop of \<open>emit\<close> reads again in every round is the list in
  the record of the event at that moment.

  What happens during an \<open>emit\<close> is recorded in a log: every call of \<open>emit\<close> with its
  arguments, and every invocation of a listener with its outcome.
\<close>

type_synonym 'w rbehaviour =
  "nat \<Rightarrow> val list \<Rightarrow> EventEmitter \<Rightarrow> 'w \<Rightarrow> outcome \<times> EventEmitter \<times> 'w"

datatype call = Invoke string nat "val list" outcome | Emit string "val list"

text \<open>
  The result of \<open>emit\<close>: what the call returns (\<open>Inr\<close>) or throws (\<open>Inl\<close>), the emitter
  and the rest of the program afterwards, and the log of the call.
\<close>

type_synonym 'w emitted = "(val + bool) \<times> EventEmitter \<times> 'w \<times> call list"

definition logged :: "call list \<Rightarrow> 'w emitted \<Rightarrow> 'w emitted" where
  "logged cs r = (case r of (res, this, w, tr) \<Rightarrow> (res, this, w, cs @ tr))"

text \<open>\<open>ev.listeners\<close>, read through the record of the event.\<close>

definition current_listeners :: "string \<Rightarrow> EventEmitter \<Rightarrow> ListenerInfo list" where
  "current_listeners event this =
     (case map_of (P_EVENT_SLOTS this) event of Some ev \<Rightarrow> listeners ev | None \<Rightarrow> [])"

text \<open>
  The \<open>finally\<close> block: \<open>if (listener.once) ev.listeners.splice(i--, 1)\<close>. It removes
  what the array holds at index \<open>i\<close> when the block runs.
\<close>

definition finally_r :: "string \<Rightarrow> ListenerInfo \<Rightarrow> nat \<Rightarrow> EventEmitter \<Rightarrow> EventEmitter" where
  "finally_r event listener i this =
     (if once listener
      then set_listeners event
             (snd (splice (int i) (Some 1) (current_listeners event this))) this
      else this)"

text \<open>
  \<open>emit\<close> and its loop, for listeners that may call the methods of the emitter while
  they run. Such a loop need not end (a listener may register a new listener in every
  round), so the functions take fuel, one unit for every call of \<open>emit\<close> and every round
  of the loop; \<open>None\<close> means that the fuel did not suffice. As in \<open>off\<close>, the index
  stays where it is after a splice. An inherited name makes \<open>emit\<close> throw a \<open>TypeError\<close>
  at \<open>ev.listeners.length\<close>.
\<close>

fun emit_r :: "nat \<Rightarrow> 'w rbehaviour \<Rightarrow> string \<Rightarrow> val list \<Rightarrow> EventEmitter \<Rightarrow> 'w \<Rightarrow>
     'w emitted option"
  and emit_loop_r :: "nat \<Rightarrow> 'w rbehaviour \<Rightarrow> string \<Rightarrow> val list \<Rightarrow> bool \<Rightarrow> bool \<Rightarrow> nat \<Rightarrow>
     EventEmitter \<Rightarrow> 'w \<Rightarrow> 'w emitted option"
where
  "emit_r 0 rb event args this w = None"
| "emit_r (Suc n) rb event args this w =
     (case map_of (P_EVENT_SLOTS this) event of
        None \<Rightarrow>
          if inherited this event then Some (Inl VTypeError, this, w, [Emit event args])
          else Some (Inr False, this, w, [Emit event args])
      | Some ev \<Rightarrow>
          if listeners ev = [] then Some (Inr False, this, w, [Emit event args])
          else map_option (logged [Emit event args])
                 (emit_loop_r n rb event args (truthy (interruptable (config ev)))
                    (truthy (continueOnError (config ev))) 0 this w))"
| "emit_loop_r 0 rb event args INTERRUPTABLE CONTINUE_ON_ERROR i this w = None"
| "emit_loop_r (Suc n) rb event args INTERRUPTABLE CONTINUE_ON_ERROR i this w =
     (if i < length (current_listeners event this) then
        (let listener = current_listeners event this ! i;
             i' = (if once listener then i else i + 1);
             c = (\<lambda>out. Invoke event (callback listener) args out)
         in case rb (callback listener) args this w of
              (Returned ret, this1, w1) \<Rightarrow>
                if INTERRUPTABLE \<and> ret = VBool False
                then Some (Inr True, finally_r event listener i this1, w1, [c (Returned ret)])
                else map_option (logged [c (Returned ret)])
                       (emit_loop_r n rb event args INTERRUPTABLE CONTINUE_ON_ERROR i'
                          (finally_r event listener i this1) w1)
            | (Thrown e, this1, w1) \<Rightarrow>
                if event = ''error''
                then Some (Inl e, finally_r event listener i this1, w1, [c (Thrown e)])
                else (case emit_r n rb ''error'' [e] this1 w1 of
                        None \<Rightarrow> None
                      | Some (Inl e', this2, w2, tr2) \<Rightarrow>
                          Some (Inl e', finally_r event listener i this2, w2,
                                c (Thrown e) # tr2)
                      | Some (Inr b, this2, w2, tr2) \<Rightarrow>
                          if \<not> CONTINUE_ON_ERROR
                          then Some (Inr True, finally_r event listener i this2, w2,
                                     c (Thrown e) # tr2)
                          else map_option (logged (c (Thrown e) # tr2))
                                 (emit_loop_r n rb event args INTERRUPTABLE
                                    CONTINUE_ON_ERROR i' (finally_r event listener i this2)
                                    w2)))
      else Some (Inr True, this, w, []))"

text \<open>
  Listeners that read the emitter and change the rest of the program, but do not call
  the methods of the emitter while they run.
\<close>

type_synonym 'w behaviour = "nat \<Rightarrow> val list \<Rightarrow> EventEmitter \<Rightarrow> 'w \<Rightarrow> outcome \<times> 'w"

definition quietly :: "'w behaviour \<Rightarrow> 'w rbehaviour" where
  "quietly beh cb args this w = (case beh cb args this w of (out, w') \<Rightarrow> (out, this, w'))"

text \<open>The \<open>finally\<close> block on the array \<open>ls\<close> that the loop holds.\<close>

definition finally_m ::
  "string \<Rightarrow> ListenerInfo \<Rightarrow> nat \<Rightarrow> ListenerInfo list \<Rightarrow> EventEmitter \<Rightarrow> EventEmitter" where
  "finally_m event listener i ls this =
     (if once listener then set_listeners event (snd (splice (int i) (Some 1) ls)) this
      else this)"

text \<open>
  \<open>emit\<close> and its loop for such listeners. Only the loop itself changes the array of
  the event, so the loop carries it along as \<open>ls\<close> (a splice changes it and the record of
  the emitter at once), and it ends without fuel: the recursion
  \<open>this.emit("error", e)\<close> ends because a dispatch of \<open>"error"\<close> rethrows instead of
  emitting again. \<open>emit_r_quietly\<close> below shows that this is \<open>emit_r\<close> at quiet
  listeners.
\<close>

function emit :: "'w behaviour \<Rightarrow> string \<Rightarrow> val list \<Rightarrow> EventEmitter \<Rightarrow> 'w \<Rightarrow> 'w emitted"
  and emit_loop :: "'w behaviour \<Rightarrow> string \<Rightarrow> val list \<Rightarrow> bool \<Rightarrow> bool \<Rightarrow> nat \<Rightarrow>
     ListenerInfo list \<Rightarrow> EventEmitter \<Rightarrow> 'w \<Rightarrow> 'w emitted"
where
  "emit beh event args this w =
     (case map_of (P_EVENT_SLOTS this) event of
        None \<Rightarrow>
          if inherited this event then (Inl VTypeError, this, w, [Emit event args])
          else (Inr False, this, w, [Emit event args])
      | Some ev \<Rightarrow>
          if listeners ev = [] then (Inr False, this, w, [Emit event args])
          else logged [Emit event args]
                 (emit_loop beh event args (truthy (interruptable (config ev)))
                    (truthy (continueOnError (config ev))) 0 (listeners ev) this w))"
| "emit_loop beh event args INTERRUPTABLE CONTINUE_ON_ERROR i ls this w =
     (if i < length ls then
        (let listener = ls ! i;
             ls' = (if once listener then snd (splice (int i) (Some 1) ls) else ls);
             i' = (if once listener then i else i + 1);
             c = (\<lambda>out. Invoke event (callback listener) args out)
         in case beh (callback listener) args this w of
              (Returned ret, w1) \<Rightarrow>
                if INTERRUPTABLE \<and> ret = VBool False
                then (Inr True, finally_m event listener i ls this, w1, [c (Returned ret)])
                else logged [c (Returned ret)]
                       (emit_loop beh event args INTERRUPTABLE CONTINUE_ON_ERROR i' ls'
                          (finally_m event listener i ls this) w1)
            | (Thrown e, w1) \<Rightarrow>
                if event = ''error''
                then (Inl e, finally_m event listener i ls this, w1, [c (Thrown e)])
                else (case emit beh ''error'' [e] this w1 of
                        (Inl e', this2, w2, tr2) \<Rightarrow>
                          (Inl e', finally_m event listener i ls this2, w2,
                           c (Thrown e) # tr2)
                      | (Inr b, this2, w2, tr2) \<Rightarrow>
                          if \<not> CONTINUE_ON_ERROR
                          then (Inr True, finally_m event listener i ls this2, w2,
                                c (Thrown e) # tr2)
                          else logged (c (Thrown e) # tr2)
                                 (emit_loop beh event args INTERRUPTABLE CONTINUE_ON_ERROR
                                    i' ls' (finally_m event listener i ls this2) w2)))
      else (Inr True, this, w, []))"
  by pat_completeness auto
termination
  by (relation "measures [
     (\<lambda>x. case x of Inl (beh, event, r) \<Rightarrow> if event = ''error'' then 0 else 1
                  | Inr (beh, event, r) \<Rightarrow> if event = ''error'' then 0 else (1::nat)),
     (\<lambda>x. case x of Inl r \<Rightarrow> 1 | Inr r \<Rightarrow> (0::nat)),
     (\<lambda>x. case x of Inl r \<Rightarrow> 0
                  | Inr (beh, event, args, ib, cb, i, ls, r) \<Rightarrow> length ls - i)]")
     (auto simp: splice_def Let_def)

declare emit.simps [simp del] emit_loop.simps [simp del] off_loop.simps [simp del]
declare emit_r.simps [simp del] emit_loop_r.simps [simp del]

section \<open>The filter manager\<close>

text \<open>
  \<open>_filters\<close> maps a filter name to a mapping from registration key to function. Both
  levels are plain objects, kept as association lists of their own keys in the order in
  which \<open>for ... in\<close> walks them. A registered function is a reference (a \<open>nat\<close>),
  always truthy.
\<close>

record FilterManager =
  p_filters :: "(string \<times> (string \<times> nat) list) list"






definition unregister :: "string \<Rightarrow> string \<Rightarrow> FilterManager \<Rightarrow> FilterManager" where
  "unregister name key this =
     (case map_of (p_filters this) name of
        None \<Rightarrow> this
      | Some sub \<Rightarrow>
          this\<lparr> p_filters := AList.update name (AList.delete key sub) (p_filters this) \<rparr>)"

definition unregisterAll :: "string \<Rightarrow> FilterManager \<Rightarrow> FilterManager" where
  "unregisterAll name this = this\<lparr> p_filters := AList.delete name (p_filters this) \<rparr>"




definition getFilterList :: "FilterManager \<Rightarrow> string list" where
  "getFilterList this = map fst (p_filters this)"



section \<open>The loop of emit, listener by listener\<close>

text \<open>
  For the proofs the loop of \<open>emit\<close> is read off the list instead of the index:
  \<open>kept\<close> are the entries before the index, \<open>rest\<close> the entries from the index on.
  \<open>kept_after\<close> is what stays before the index once the entry \<open>l\<close> has run,
  \<open>spliced_out\<close> is the \<open>finally\<close> block writing the remaining entries.
  \<open>emit_loop_dispatch\<close> below shows that this is the loop of the source.
\<close>

definition kept_after :: "ListenerInfo \<Rightarrow> ListenerInfo list \<Rightarrow> ListenerInfo list" where
  "kept_after l kept = (if once l then kept else kept @ [l])"

definition spliced_out ::
  "string \<Rightarrow> ListenerInfo \<Rightarrow> ListenerInfo list \<Rightarrow> EventEmitter \<Rightarrow> EventEmitter" where
  "spliced_out event l remaining this =
     (if once l then set_listeners event remaining this else this)"

fun dispatch :: "'w behaviour \<Rightarrow> string \<Rightarrow> val list \<Rightarrow> bool \<Rightarrow> bool \<Rightarrow>
     ListenerInfo list \<Rightarrow> ListenerInfo list \<Rightarrow> EventEmitter \<Rightarrow> 'w \<Rightarrow> 'w emitted" where
  "dispatch beh event args INTERRUPTABLE CONTINUE_ON_ERROR kept [] this w =
     (Inr True, this, w, [])"
| "dispatch beh event args INTERRUPTABLE CONTINUE_ON_ERROR kept (l # rest) this w =
     (case beh (callback l) args this w of
        (Returned ret, w1) \<Rightarrow>
          if INTERRUPTABLE \<and> ret = VBool False
          then (Inr True, spliced_out event l (kept @ rest) this, w1,
                [Invoke event (callback l) args (Returned ret)])
          else logged [Invoke event (callback l) args (Returned ret)]
                 (dispatch beh event args INTERRUPTABLE CONTINUE_ON_ERROR (kept_after l kept)
                    rest (spliced_out event l (kept @ rest) this) w1)
      | (Thrown e, w1) \<Rightarrow>
          if event = ''error''
          then (Inl e, spliced_out event l (kept @ rest) this, w1,
                [Invoke event (callback l) args (Thrown e)])
          else (case emit beh ''error'' [e] this w1 of
                  (Inl e', this2, w2, tr2) \<Rightarrow>
                    (Inl e', spliced_out event l (kept @ rest) this2, w2,
                     Invoke event (callback l) args (Thrown e) # tr2)
                | (Inr b, this2, w2, tr2) \<Rightarrow>
                    if \<not> CONTINUE_ON_ERROR
                    then (Inr True, spliced_out event l (kept @ rest) this2, w2,
                          Invoke event (callback l) args (Thrown e) # tr2)
                    else logged (Invoke event (callback l) args (Thrown e) # tr2)
                           (dispatch beh event args INTERRUPTABLE CONTINUE_ON_ERROR
                              (kept_after l kept) rest
                              (spliced_out event l (kept @ rest) this2) w2)))"

text \<open>The callbacks that were invoked for an event, in the order of the log.\<close>

fun invoked :: "string \<Rightarrow> call list \<Rightarrow> nat list" where
  "invoked event [] = []"
| "invoked event (Invoke ev cb a out # tr) =
     (if ev = event then cb # invoked event tr else invoked event tr)"
| "invoked event (Emit ev a # tr) = invoked event tr"

text \<open>
  \<open>each_suffix Q tr\<close>: every entry \<open>c\<close> of the log, with the entries \<open>post\<close> that follow
  it, satisfies \<open>Q c post\<close>.
\<close>

fun each_suffix :: "('a \<Rightarrow> 'a list \<Rightarrow> bool) \<Rightarrow> 'a list \<Rightarrow> bool" where
  "each_suffix Q [] = True"
| "each_suffix Q (c # cs) = (Q c cs \<and> each_suffix Q cs)"

text \<open>
  \<open>frame S this this'\<close>: from \<open>this\<close> to \<open>this'\<close> the global configuration and the
  event names are the same, the slots outside \<open>S\<close> are the same, and every slot keeps
  its configuration while its list of listeners does not grow.
\<close>

definition frame :: "string set \<Rightarrow> EventEmitter \<Rightarrow> EventEmitter \<Rightarrow> bool" where
  "frame S this this' \<longleftrightarrow>
     P_CONFIG this' = P_CONFIG this \<and>
     eventNames this' = eventNames this \<and>
     (\<forall>n. n \<notin> S \<longrightarrow> map_of (P_EVENT_SLOTS this') n = map_of (P_EVENT_SLOTS this) n) \<and>
     (\<forall>n ev. map_of (P_EVENT_SLOTS this) n = Some ev \<longrightarrow>
        (\<exists>ls. map_of (P_EVENT_SLOTS this') n = Some (ev\<lparr> listeners := ls \<rparr>) \<and>
              length ls \<le> length (listeners ev)))"

text \<open>Classifying the entries of a log.\<close>

fun of_event :: "string \<Rightarrow> call \<Rightarrow> bool" where
  "of_event event (Invoke ev cb a out) = (ev = event)"
| "of_event event (Emit ev a) = False"

fun threw :: "call \<Rightarrow> val option" where
  "threw (Invoke ev cb a (Thrown e)) = Some e"
| "threw (Invoke ev cb a (Returned v)) = None"
| "threw (Emit ev a) = None"


section \<open>Listeners that leave a list alone\<close>

text \<open>
  \<open>slot_listeners event this\<close> is the array \<open>ev.listeners\<close> of the record of the event,
  if the event has a record. \<open>keeps_listeners rb event\<close>: no invocation of a listener
  adds a listener to the event or removes one from it (the listener may call any other
  method of the emitter, and any method for other events).
\<close>

definition slot_listeners :: "string \<Rightarrow> EventEmitter \<Rightarrow> ListenerInfo list option" where
  "slot_listeners event this = map_option listeners (map_of (P_EVENT_SLOTS this) event)"

definition keeps_listeners :: "'w rbehaviour \<Rightarrow> string \<Rightarrow> bool" where
  "keeps_listeners rb event \<longleftrightarrow>
     (\<forall>cb args this w.
        slot_listeners event (fst (snd (rb cb args this w))) = slot_listeners event this)"

section \<open>The limit on listeners\<close>

text \<open>
  \<open>slot_or_new\<close> is the record that \<open>on\<close> and \<open>once\<close> work on: the record of the event,
  or a new one made from the global configuration.
\<close>

definition slot_or_new :: "string \<Rightarrow> EventEmitter \<Rightarrow> EventInfo" where
  "slot_or_new event this =
     (case map_of (P_EVENT_SLOTS this) event of
        Some ev \<Rightarrow> ev
      | None \<Rightarrow> new_EventInfo (P_CONFIG this))"

text \<open>
  \<open>length_within n m\<close> is the comparison \<open>n <= m\<close> of JavaScript for a length \<open>n\<close>: it
  is false when \<open>m\<close> is \<open>undefined\<close> or \<open>NaN\<close>. \<open>whole_limit m\<close>: the limit is a whole
  number or \<open>Infinity\<close>, the values that a growing length cannot pass without being
  equal to them.
\<close>

definition length_within :: "nat \<Rightarrow> number option \<Rightarrow> bool" where
  "length_within n m =
     (case m of Some (Num q) \<Rightarrow> of_nat n \<le> q | Some Infinity \<Rightarrow> True | _ \<Rightarrow> False)"

definition whole_limit :: "number option \<Rightarrow> bool" where
  "whole_limit m =
     (case m of Some (Num q) \<Rightarrow> of_int \<lfloor>q\<rfloor> = q | Some Infinity \<Rightarrow> True | _ \<Rightarrow> False)"

definition limit_ok :: "nat \<Rightarrow> number option \<Rightarrow> bool" where
  "limit_ok n m \<longleftrightarrow> length_within n m \<and> whole_limit m"

text \<open>
  \<open>bounded\<close>: no record holds more listeners than its \<open>maxListeners\<close>, which is a
  whole limit. \<open>within_limits\<close>: moreover the global \<open>maxListeners\<close>, from which new
  records start, is a whole limit and not negative.
\<close>

definition bounded :: "EventEmitter \<Rightarrow> bool" where
  "bounded this =
     list_all (\<lambda>n. case map_of (P_EVENT_SLOTS this) n of
                      None \<Rightarrow> True
                    | Some ev \<Rightarrow> limit_ok (length (listeners ev)) (maxListeners (config ev)))
       (eventNames this)"

definition within_limits :: "EventEmitter \<Rightarrow> bool" where
  "within_limits this \<longleftrightarrow> limit_ok 0 (maxListeners (P_CONFIG this)) \<and> bounded this"

section \<open>Examples\<close>

text \<open>Concrete configurations, behaviours and states on which the theorems are exercised.\<close>

definition limit_zero :: PartialConfiguration where
  "limit_zero = \<lparr> p_interruptable = Absent, p_continueOnError = Absent, p_maxListeners = Present (Some (Num 0)) \<rparr>"

definition limit_one :: PartialConfiguration where
  "limit_one = \<lparr> p_interruptable = Absent, p_continueOnError = Absent, p_maxListeners = Present (Some (Num 1)) \<rparr>"

text \<open>\<open>configEvent("x", {maxListeners: 1})\<close>, then \<open>on("x", f1)\<close>: the slot of \<open>"x"\<close> is full.\<close>

definition full_x :: EventEmitter where
  "full_x = snd (on ''x'' 1 (configEvent (ForEvent ''x'' limit_one) (new_EventEmitter None)))"

definition full_x_slot :: EventInfo where
  "full_x_slot =
     \<lparr> config = \<lparr> interruptable = Some False, continueOnError = Some False,
                  maxListeners = Some (Num 1) \<rparr>,
       listeners = [\<lparr> callback = 1, once = False \<rparr>] \<rparr>"

text \<open>
  \<open>configEvent("x", {maxListeners: 2.5})\<close>, then \<open>on("x", f1); on("x", f2)\<close>: two
  listeners, below the limit.
\<close>

definition limit_fraction :: PartialConfiguration where
  "limit_fraction =
     \<lparr> p_interruptable = Absent, p_continueOnError = Absent,
       p_maxListeners = Present (Some (Num (5 / 2))) \<rparr>"

definition ex_fraction :: EventEmitter where
  "ex_fraction =
     snd (on ''x'' 2 (snd (on ''x'' 1
       (configEvent (ForEvent ''x'' limit_fraction) (new_EventEmitter None)))))"

text \<open>\<open>on("x", f1); on("x", f2)\<close> on a new emitter.\<close>

definition ex_two :: EventEmitter where
  "ex_two = snd (on ''x'' 2 (snd (on ''x'' 1 (new_EventEmitter None))))"

text \<open>
  A behaviour for the examples: function \<open>1\<close> throws \<open>"boom"\<close>, function \<open>3\<close> returns
  \<open>false\<close>, function \<open>4\<close> throws \<open>"bad handler"\<close>, every other function returns
  \<open>undefined\<close>.
\<close>

definition ex_beh :: "unit behaviour" where
  "ex_beh cb args this w =
     (if cb = 1 then Thrown (VStr ''boom'')
      else if cb = 3 then Returned (VBool False)
      else if cb = 4 then Thrown (VStr ''bad handler'')
      else Returned VUndefined, w)"

definition keep_going :: PartialConfiguration where
  "keep_going = \<lparr> p_interruptable = Absent, p_continueOnError = Present (Some True), p_maxListeners = Absent \<rparr>"


text \<open>Event \<open>"x"\<close> continues on error: \<open>once(f1)\<close>, \<open>on(f2)\<close>, \<open>once(f3)\<close>.\<close>

definition ex_x :: EventEmitter where
  "ex_x = snd (once_m ''x'' 3 (snd (on ''x'' 2 (snd (once_m ''x'' 1
            (configEvent (ForEvent ''x'' keep_going) (new_EventEmitter None)))))))"


text \<open>
  Event \<open>"x"\<close> with \<open>on(f1)\<close>, \<open>on(f2)\<close> and an \<open>"error"\<close> listener that returns
  (\<open>ex_handled\<close>) or throws (\<open>ex_bad_handler\<close>).
\<close>

definition ex_handled :: EventEmitter where
  "ex_handled = snd (on ''error'' 2 (snd (on ''x'' 2 (snd (on ''x'' 1 (new_EventEmitter None))))))"

definition ex_bad_handler :: EventEmitter where
  "ex_bad_handler = snd (on ''error'' 4 (snd (on ''x'' 2 (snd (on ''x'' 1 (new_EventEmitter None))))))"




definition ex_throwing_slot :: EventInfo where
  "ex_throwing_slot =
     \<lparr> config = DEFAULT_CONFIGURATION,
       listeners = [new_ListenerInfo 1 False, new_ListenerInfo 2 False] \<rparr>"

definition ex_bad_slot :: EventInfo where
  "ex_bad_slot = \<lparr> config = DEFAULT_CONFIGURATION, listeners = [new_ListenerInfo 4 False] \<rparr>"







section \<open>Properties of registration and removal\<close>

lemma splice_one:
  "i < length xs \<Longrightarrow> snd (splice (int i) (Some (Suc 0)) xs) = take i xs @ drop (Suc i) xs"
  by (simp add: splice_def Let_def min_def)

lemma splice_all: "splice 0 None xs = (xs, [])"
  by (simp add: splice_def)

text \<open>The loop of \<open>off\<close> keeps the entries before \<open>i\<close> and drops every match from \<open>i\<close> on.\<close>

lemma off_loop_filter:
  "i \<le> length ls \<Longrightarrow>
   off_loop cb i ls = take i ls @ filter (\<lambda>l. callback l \<noteq> cb) (drop i ls)"
proof (induction cb i ls rule: off_loop.induct)
  case (1 cb i ls)
  show ?case
  proof (cases "i < length ls")
    case False
    with "1.prems" show ?thesis by (simp add: off_loop.simps)
  next
    case True
    then have d: "drop i ls = ls ! i # drop (Suc i) ls"
      by (simp add: Cons_nth_drop_Suc)
    show ?thesis
    proof (cases "callback (ls ! i) = cb")
      case hit: True
      have "off_loop cb i ls = off_loop cb i (take i ls @ drop (Suc i) ls)"
        using True hit by (subst off_loop.simps) (simp add: splice_one)
      also have "\<dots> = take i ls @ filter (\<lambda>l. callback l \<noteq> cb) (drop (Suc i) ls)"
        using "1.IH"(1) [OF True hit] True by (simp add: splice_one min_def)
      finally show ?thesis using hit d by simp
    next
      case miss: False
      have "off_loop cb i ls = off_loop cb (i + 1) ls"
        using True miss by (subst off_loop.simps) simp
      also have "\<dots> = take (Suc i) ls @ filter (\<lambda>l. callback l \<noteq> cb) (drop (Suc i) ls)"
        using "1.IH"(2) [OF True miss] True by simp
      finally show ?thesis using miss d True by (simp add: take_Suc_conv_app_nth)
    qed
  qed
qed

text \<open>
  So \<open>off\<close> with a callback empties the list and returns the number of entries that
  did \<^emph>\<open>not\<close> match: the matches are gone before the last splice counts.
\<close>

lemma off_with_callback:
  assumes "map_of (P_EVENT_SLOTS this) event = Some ev"
  shows "off event (Some cb) this =
           (Inr (length (filter (\<lambda>l. callback l \<noteq> cb) (listeners ev))),
            set_listeners event [] this)"
  using assms by (simp add: off_def off_loop_filter splice_all)

lemma off_without_callback:
  assumes "map_of (P_EVENT_SLOTS this) event = Some ev"
  shows "off event None this = (Inr (length (listeners ev)), set_listeners event [] this)"
  using assms by (simp add: off_def splice_all)

text \<open>
  Claim C1. \<open>off(event, cb)\<close> removes all listeners of the event and returns the number
  of listeners the event had before the call. On the code the first half holds and the
  count does not: with the single listener \<open>cb\<close> registered for \<open>"x"\<close>, the call
  \<open>off("x", cb)\<close> leaves no listener and returns \<open>0\<close>, where one listener was removed.
\<close>

theorem off_callback_count_drops_matches:
  "listenerCount ''x'' (snd (on ''x'' 1 (new_EventEmitter None))) = Inr 1 \<and>
   fst (off ''x'' (Some 1) (snd (on ''x'' 1 (new_EventEmitter None)))) = Inr 0 \<and>
   listenerCount ''x''
     (snd (off ''x'' (Some 1) (snd (on ''x'' 1 (new_EventEmitter None))))) = Inr 0"
  by code_simp

subsection \<open>Reading the emitter after a write\<close>

text \<open>The assignment \<open>obj[k] = v\<close> as a map, and the keys after it.\<close>

lemma map_of_insert_index:
  "k \<notin> fst ` set xs \<Longrightarrow> map_of (insert_index i k v xs) = (map_of xs)(k \<mapsto> v)"
proof (induction xs)
  case Nil
  show ?case by simp
next
  case (Cons x xs)
  obtain k' v' where x: "x = (k', v')" by (cases x)
  with Cons.prems have ne: "k \<noteq> k'" and nin: "k \<notin> fst ` set xs" by auto
  from Cons.IH [OF nin] ne show ?case
    unfolding x by (auto simp: fun_eq_iff split: option.splits)
qed

lemma keys_insert_index: "fst ` set (insert_index i k v xs) = insert k (fst ` set xs)"
proof (induction xs)
  case Nil
  show ?case by simp
next
  case (Cons x xs)
  obtain k' v' where x: "x = (k', v')" by (cases x)
  show ?case
  proof (cases "array_index k'")
    case None
    then show ?thesis unfolding x by auto
  next
    case (Some j)
    show ?thesis
    proof (cases "j < i")
      case True
      with Some Cons.IH show ?thesis unfolding x by (simp add: insert_commute)
    next
      case False
      with Some show ?thesis unfolding x by auto
    qed
  qed
qed

lemma map_of_append_new:
  "k \<notin> fst ` set xs \<Longrightarrow> map_of (xs @ [(k, v)]) = (map_of xs)(k \<mapsto> v)"
  by (induction xs) (auto simp: fun_eq_iff)

lemma map_of_js_put: "map_of (js_put k v xs) = (map_of xs)(k \<mapsto> v)"
proof (cases "k \<in> fst ` set xs")
  case True
  then show ?thesis by (simp add: js_put_def update_conv')
next
  case False
  then show ?thesis
    by (cases "array_index k") (simp_all add: js_put_def map_of_insert_index map_of_append_new del: map_of_append)
qed

lemma keys_update: "fst ` set (AList.update k v xs) = insert k (fst ` set xs)"
  by (induction xs) auto

lemma keys_js_put: "fst ` set (js_put k v xs) = insert k (fst ` set xs)"
proof (cases "k \<in> fst ` set xs")
  case True
  then show ?thesis by (simp add: js_put_def keys_update)
next
  case False
  then show ?thesis
    by (cases "array_index k") (simp_all add: js_put_def keys_insert_index)
qed

lemma slot_set_slot:
  "map_of (P_EVENT_SLOTS (set_slot e ev this)) n =
     (if n = e then Some ev else map_of (P_EVENT_SLOTS this) n)"
  by (simp add: set_slot_def map_of_js_put)

lemma names_set_slot: "set (eventNames (set_slot e ev this)) = insert e (set (eventNames this))"
  by (simp add: set_slot_def eventNames_def keys_js_put)

lemma inherited_set_slot [simp]: "inherited (set_slot e ev this) n = inherited this n"
  by (simp add: inherited_def set_slot_def)

lemma inherited_set_listeners [simp]: "inherited (set_listeners e ls this) n = inherited this n"
  by (simp add: inherited_def set_listeners_def)

lemma inherited_error [simp]: "\<not> inherited this ''error''"
  by (simp add: inherited_def Object_prototype_def)

lemma slot_set_listeners:
  "map_of (P_EVENT_SLOTS (set_listeners e ls this)) n =
     (if n = e then map_option (\<lambda>ev. ev\<lparr> listeners := ls \<rparr>) (map_of (P_EVENT_SLOTS this) e)
      else map_of (P_EVENT_SLOTS this) n)"
  by (simp add: set_listeners_def map_of_map_entry split: option.splits)

lemma config_set_slot: "P_CONFIG (set_slot e ev this) = P_CONFIG this"
  by (simp add: set_slot_def)

lemma config_set_listeners: "P_CONFIG (set_listeners e ls this) = P_CONFIG this"
  by (simp add: set_listeners_def)

lemma map_fst_map_entry: "map fst (AList.map_entry k f xs) = map fst xs"
  by (induction xs) auto

lemma names_set_listeners: "eventNames (set_listeners e ls this) = eventNames this"
  by (simp add: set_listeners_def eventNames_def map_fst_map_entry)

subsection \<open>Registration at the limit\<close>

text \<open>
  Claim C3, as stated: a call of \<open>on\<close> or \<open>once\<close> with as many listeners as
  \<open>maxListeners\<close> allows raises and leaves the emitter completely unchanged, also when
  no record existed before the call. That last case fails: on an emitter built with
  \<open>maxListeners = 0\<close> the event \<open>"x"\<close> has no record and no listener, the call
  \<open>on("x", f1)\<close> raises, and afterwards the emitter has a record for \<open>"x"\<close>.
\<close>

theorem on_at_limit_creates_slot:
  "listenerCount ''x'' (new_EventEmitter (Some limit_zero)) = Inr 0 \<and>
   maxListeners (P_CONFIG (new_EventEmitter (Some limit_zero))) = Some (Num 0) \<and>
   fst (on ''x'' 1 (new_EventEmitter (Some limit_zero))) = Inl E_EXCEED_MAX_LISTENERS \<and>
   snd (on ''x'' 1 (new_EventEmitter (Some limit_zero))) \<noteq> new_EventEmitter (Some limit_zero) \<and>
   eventNames (new_EventEmitter (Some limit_zero)) = [] \<and>
   eventNames (snd (on ''x'' 1 (new_EventEmitter (Some limit_zero)))) = [''x'']"
  by code_simp

text \<open>
  Claim C3, amended. When the record of the event exists and holds exactly
  \<open>maxListeners\<close> listeners, \<open>on\<close> and \<open>once\<close> raise \<open>E_EXCEED_MAX_LISTENERS\<close> and the
  emitter is exactly what it was. When the event has no record, its name is not
  inherited from \<open>Object.prototype\<close> and the global \<open>maxListeners\<close> is \<open>0\<close>, they raise
  as well, and the one change is the new empty record of the event, made from the global
  configuration: no list of listeners and no configuration changes. When the event has
  no record and its name is inherited (\<open>"toString"\<close>, \<open>"constructor"\<close>, ...), they
  throw a \<open>TypeError\<close> whatever the limit is, and the emitter is exactly what it was.
\<close>

theorem on_once_at_limit:
  "(map_of (P_EVENT_SLOTS this) event = Some ev \<and>
      maxListeners (config ev) = Some (Num (of_nat (length (listeners ev)))) \<longrightarrow>
      on event cb this = (Inl E_EXCEED_MAX_LISTENERS, this) \<and>
      once_m event cb this = (Inl E_EXCEED_MAX_LISTENERS, this)) \<and>
   (map_of (P_EVENT_SLOTS this) event = None \<and> \<not> inherited this event \<and>
      maxListeners (P_CONFIG this) = Some (Num 0) \<longrightarrow>
      on event cb this =
        (Inl E_EXCEED_MAX_LISTENERS, set_slot event (new_EventInfo (P_CONFIG this)) this) \<and>
      once_m event cb this =
        (Inl E_EXCEED_MAX_LISTENERS, set_slot event (new_EventInfo (P_CONFIG this)) this) \<and>
      (\<forall>n. listeners_m n (set_slot event (new_EventInfo (P_CONFIG this)) this) =
             listeners_m n this) \<and>
      P_CONFIG (set_slot event (new_EventInfo (P_CONFIG this)) this) = P_CONFIG this) \<and>
   (map_of (P_EVENT_SLOTS this) event = None \<and> inherited this event \<longrightarrow>
      on event cb this = (Inl TypeError, this) \<and>
      once_m event cb this = (Inl TypeError, this))"
  by (auto simp: on_def once_m_def new_EventInfo_def listeners_m_def slot_set_slot
        config_set_slot)

theorem on_once_at_limit_witness:
  "(map_of (P_EVENT_SLOTS full_x) ''x'' = Some full_x_slot \<and>
    maxListeners (config full_x_slot) = Some (Num (of_nat (length (listeners full_x_slot))))) \<and>
   on ''x'' 2 full_x = (Inl E_EXCEED_MAX_LISTENERS, full_x) \<and>
   once_m ''x'' 2 full_x = (Inl E_EXCEED_MAX_LISTENERS, full_x) \<and>
   (map_of (P_EVENT_SLOTS (new_EventEmitter (Some limit_zero))) ''y'' = None \<and>
    \<not> inherited (new_EventEmitter (Some limit_zero)) ''y'' \<and>
    maxListeners (P_CONFIG (new_EventEmitter (Some limit_zero))) = Some (Num 0)) \<and>
   on ''y'' 2 (new_EventEmitter (Some limit_zero)) =
     (Inl E_EXCEED_MAX_LISTENERS,
      set_slot ''y'' (new_EventInfo (P_CONFIG (new_EventEmitter (Some limit_zero))))
        (new_EventEmitter (Some limit_zero))) \<and>
   (map_of (P_EVENT_SLOTS (new_EventEmitter (Some limit_zero))) ''toString'' = None \<and>
    inherited (new_EventEmitter (Some limit_zero)) ''toString'') \<and>
   on ''toString'' 2 (new_EventEmitter (Some limit_zero)) =
     (Inl TypeError, new_EventEmitter (Some limit_zero))"
proof -
  have a: "map_of (P_EVENT_SLOTS full_x) ''x'' = Some full_x_slot \<and>
    maxListeners (config full_x_slot) = Some (Num (of_nat (length (listeners full_x_slot))))"
    by code_simp
  have b: "map_of (P_EVENT_SLOTS (new_EventEmitter (Some limit_zero))) ''y'' = None \<and>
    \<not> inherited (new_EventEmitter (Some limit_zero)) ''y'' \<and>
    maxListeners (P_CONFIG (new_EventEmitter (Some limit_zero))) = Some (Num 0)"
    by code_simp
  have c: "map_of (P_EVENT_SLOTS (new_EventEmitter (Some limit_zero))) ''toString'' = None \<and>
    inherited (new_EventEmitter (Some limit_zero)) ''toString''"
    by code_simp
  show ?thesis
    using a b c on_once_at_limit [of full_x "''x''" full_x_slot 2]
      on_once_at_limit [of "new_EventEmitter (Some limit_zero)" "''y''" full_x_slot 2]
      on_once_at_limit [of "new_EventEmitter (Some limit_zero)" "''toString''" full_x_slot 2]
    by blast
qed

section \<open>Properties of dispatch\<close>

subsection \<open>The loop by index is the loop by list\<close>

lemma emit_loop_dispatch:
  "emit_loop beh event args ib cb (length kept) (kept @ rest) this w =
   dispatch beh event args ib cb kept rest this w"
proof (induction rest arbitrary: kept this w ib cb)
  case Nil
  show ?case by (subst emit_loop.simps) simp
next
  case (Cons l rest)
  have sp: "snd (splice (int (length kept)) (Some (Suc 0)) (kept @ l # rest)) = kept @ rest"
    by (simp add: splice_one)
  have nx: "\<And>t v i c. emit_loop beh event args i c (length kept) (kept @ rest) t v =
              dispatch beh event args i c kept rest t v"
    by (rule Cons.IH)
  have nx': "\<And>t v i c. emit_loop beh event args i c (Suc (length kept)) (kept @ l # rest) t v =
              dispatch beh event args i c (kept @ [l]) rest t v"
    using Cons.IH [of _ _ "kept @ [l]"] by simp
  show ?case
    by (subst emit_loop.simps)
       (simp add: Let_def finally_m_def spliced_out_def kept_after_def sp nx nx'
          split: prod.splits outcome.splits sum.splits)
qed

lemma emit_dispatch:
  "emit beh event args this w =
     (case map_of (P_EVENT_SLOTS this) event of
        None \<Rightarrow>
          if inherited this event then (Inl VTypeError, this, w, [Emit event args])
          else (Inr False, this, w, [Emit event args])
      | Some ev \<Rightarrow>
          if listeners ev = [] then (Inr False, this, w, [Emit event args])
          else logged [Emit event args]
                 (dispatch beh event args (truthy (interruptable (config ev)))
                    (truthy (continueOnError (config ev))) [] (listeners ev) this w))"
  using emit_loop_dispatch [of beh event args _ _ "[]"]
  by (subst emit.simps) (simp split: option.splits)

lemma logged_eq:
  "logged cs x = (r, this', w', tr) \<longleftrightarrow> (\<exists>tr'. x = (r, this', w', tr') \<and> tr = cs @ tr')"
  by (cases x) (auto simp: logged_def)

lemma dispatch_Cons_cases [consumes 1, case_names interrupt returned rethrow error_throws stop continue]:
  assumes "dispatch beh event args ib cb kept (l # rest) this w = (r, this', w', tr)"
  obtains
    w1 where "beh (callback l) args this w = (Returned (VBool False), w1)" "ib"
      "r = Inr True" "this' = spliced_out event l (kept @ rest) this" "w' = w1"
      "tr = [Invoke event (callback l) args (Returned (VBool False))]"
  | ret w1 tr' where "beh (callback l) args this w = (Returned ret, w1)"
      "\<not> (ib \<and> ret = VBool False)"
      "dispatch beh event args ib cb (kept_after l kept) rest
         (spliced_out event l (kept @ rest) this) w1 = (r, this', w', tr')"
      "tr = Invoke event (callback l) args (Returned ret) # tr'"
  | e w1 where "beh (callback l) args this w = (Thrown e, w1)" "event = ''error''"
      "r = Inl e" "this' = spliced_out event l (kept @ rest) this" "w' = w1"
      "tr = [Invoke event (callback l) args (Thrown e)]"
  | e w1 e' this2 tr2 where "beh (callback l) args this w = (Thrown e, w1)"
      "event \<noteq> ''error''" "emit beh ''error'' [e] this w1 = (Inl e', this2, w', tr2)"
      "r = Inl e'" "this' = spliced_out event l (kept @ rest) this2"
      "tr = Invoke event (callback l) args (Thrown e) # tr2"
  | e w1 b this2 tr2 where "beh (callback l) args this w = (Thrown e, w1)"
      "event \<noteq> ''error''" "emit beh ''error'' [e] this w1 = (Inr b, this2, w', tr2)"
      "\<not> cb" "r = Inr True" "this' = spliced_out event l (kept @ rest) this2"
      "tr = Invoke event (callback l) args (Thrown e) # tr2"
  | e w1 b this2 w2 tr2 tr' where "beh (callback l) args this w = (Thrown e, w1)"
      "event \<noteq> ''error''" "emit beh ''error'' [e] this w1 = (Inr b, this2, w2, tr2)"
      "cb"
      "dispatch beh event args ib cb (kept_after l kept) rest
         (spliced_out event l (kept @ rest) this2) w2 = (r, this', w', tr')"
      "tr = Invoke event (callback l) args (Thrown e) # tr2 @ tr'"
proof -
  obtain out w1 where b: "beh (callback l) args this w = (out, w1)"
    by (cases "beh (callback l) args this w")
  show thesis
  proof (cases out)
    case (Returned ret)
    show thesis
    proof (cases "ib \<and> ret = VBool False")
      case True
      with assms b Returned show thesis by (intro that(1)) auto
    next
      case False
      with assms b Returned obtain tr' where
        "dispatch beh event args ib cb (kept_after l kept) rest
           (spliced_out event l (kept @ rest) this) w1 = (r, this', w', tr')"
        "tr = Invoke event (callback l) args (Returned ret) # tr'"
        by (auto simp: logged_eq)
      with b Returned False show thesis by (intro that(2)) auto
    qed
  next
    case (Thrown e)
    show thesis
    proof (cases "event = ''error''")
      case True
      with assms b Thrown show thesis by (intro that(3)) auto
    next
      case False
      obtain r2 this2 w2 tr2 where n: "emit beh ''error'' [e] this w1 = (r2, this2, w2, tr2)"
        by (cases "emit beh ''error'' [e] this w1")
      show thesis
      proof (cases r2)
        case (Inl e')
        with assms b Thrown False n show thesis by (intro that(4)) auto
      next
        case (Inr bb)
        show thesis
        proof (cases cb)
          case False
          with assms b Thrown \<open>event \<noteq> ''error''\<close> n Inr show thesis
            by (intro that(5)) auto
        next
          case True
          with assms b Thrown \<open>event \<noteq> ''error''\<close> n Inr obtain tr' where
            "dispatch beh event args ib cb (kept_after l kept) rest
               (spliced_out event l (kept @ rest) this2) w2 = (r, this', w', tr')"
            "tr = Invoke event (callback l) args (Thrown e) # tr2 @ tr'"
            by (auto simp: logged_eq)
          with b Thrown \<open>event \<noteq> ''error''\<close> n Inr True show thesis
            by (intro that(6)) auto
        qed
      qed
    qed
  qed
qed

subsection \<open>What a dispatch changes in the emitter\<close>

lemma frame_refl: "frame S this this"
  unfolding frame_def
proof (intro conjI allI impI)
  fix n ev assume "map_of (P_EVENT_SLOTS this) n = Some ev"
  then have "map_of (P_EVENT_SLOTS this) n = Some (ev\<lparr> listeners := listeners ev \<rparr>) \<and>
             length (listeners ev) \<le> length (listeners ev)" by simp
  then show "\<exists>ls. map_of (P_EVENT_SLOTS this) n = Some (ev\<lparr> listeners := ls \<rparr>) \<and>
             length ls \<le> length (listeners ev)" by blast
qed simp_all

lemma frame_trans:
  assumes "frame S a b" and "frame T b c"
  shows "frame (S \<union> T) a c"
  unfolding frame_def
proof (intro conjI allI impI)
  show "P_CONFIG c = P_CONFIG a" using assms by (simp add: frame_def)
  show "eventNames c = eventNames a" using assms by (simp add: frame_def)
  show "map_of (P_EVENT_SLOTS c) n = map_of (P_EVENT_SLOTS a) n" if "n \<notin> S \<union> T" for n
    using assms that by (simp add: frame_def)
  show "\<exists>ls. map_of (P_EVENT_SLOTS c) n = Some (ev\<lparr> listeners := ls \<rparr>) \<and>
             length ls \<le> length (listeners ev)"
    if "map_of (P_EVENT_SLOTS a) n = Some ev" for n ev
  proof -
    from assms(1) that obtain ls where
      b: "map_of (P_EVENT_SLOTS b) n = Some (ev\<lparr> listeners := ls \<rparr>)"
      and l: "length ls \<le> length (listeners ev)"
      unfolding frame_def by blast
    from assms(2) b obtain ls' where
      "map_of (P_EVENT_SLOTS c) n = Some (ev\<lparr> listeners := ls \<rparr>\<lparr> listeners := ls' \<rparr>)"
      and "length ls' \<le> length (listeners (ev\<lparr> listeners := ls \<rparr>))"
      unfolding frame_def by blast
    with l show ?thesis by (intro exI [of _ ls']) simp
  qed
qed

lemma frame_spliced_out:
  assumes "map_of (P_EVENT_SLOTS this) event = Some ev"
    and "length remaining \<le> length (listeners ev)"
  shows "frame {event} this (spliced_out event l remaining this)"
proof (cases "once l")
  case False
  then show ?thesis by (simp add: spliced_out_def frame_refl)
next
  case True
  have "\<exists>ls. map_of (P_EVENT_SLOTS (set_listeners event remaining this)) n =
               Some (ev'\<lparr> listeners := ls \<rparr>) \<and> length ls \<le> length (listeners ev')"
    if "map_of (P_EVENT_SLOTS this) n = Some ev'" for n ev'
  proof (cases "n = event")
    case True
    with that assms show ?thesis
      by (intro exI [of _ remaining]) (simp add: slot_set_listeners)
  next
    case False
    with that show ?thesis
      by (intro exI [of _ "listeners ev'"]) (simp add: slot_set_listeners)
  qed
  with True show ?thesis
    by (simp add: spliced_out_def frame_def config_set_listeners names_set_listeners
          slot_set_listeners)
qed

lemma slot_spliced_out:
  assumes "map_of (P_EVENT_SLOTS this) event = Some ev"
    and "listeners ev = kept @ l # rest"
  shows "map_of (P_EVENT_SLOTS (spliced_out event l (kept @ rest) this)) event =
           Some (ev\<lparr> listeners := kept_after l kept @ rest \<rparr>)"
proof (cases "once l")
  case True
  with assms show ?thesis by (simp add: spliced_out_def kept_after_def slot_set_listeners)
next
  case False
  have "ev\<lparr> listeners := kept @ l # rest \<rparr> = ev" using assms(2) by simp
  with False assms(1) show ?thesis by (simp add: spliced_out_def kept_after_def)
qed

lemma invoked_append: "invoked event (xs @ ys) = invoked event xs @ invoked event ys"
  by (induction event xs rule: invoked.induct) auto

lemma kept_after_filter:
  "kept_after l kept @ filter (\<lambda>l. \<not> once l) (take k rest) @ drop k rest =
   kept @ filter (\<lambda>l. \<not> once l) (take (Suc k) (l # rest)) @ drop (Suc k) (l # rest)"
  by (simp add: kept_after_def)

lemma dispatch_listeners_gen:
  assumes nested: "\<And>e t v r2 t2 v2 tr2. event \<noteq> ''error'' \<Longrightarrow>
      emit beh ''error'' [e] t v = (r2, t2, v2, tr2) \<Longrightarrow>
      frame {''error''} t t2 \<and> invoked event tr2 = []"
  shows "dispatch beh event args ib cb kept rest this w = (r, this', w', tr) \<Longrightarrow>
    map_of (P_EVENT_SLOTS this) event = Some ev \<Longrightarrow> listeners ev = kept @ rest \<Longrightarrow>
    \<exists>k\<le>length rest.
       map_of (P_EVENT_SLOTS this') event =
         Some (ev\<lparr> listeners := kept @ filter (\<lambda>l. \<not> once l) (take k rest) @ drop k rest \<rparr>) \<and>
       invoked event tr = map callback (take k rest) \<and>
       frame {event, ''error''} this this'"
proof (induction rest arbitrary: kept this w tr ev)
  case Nil
  then have "map_of (P_EVENT_SLOTS this') event = Some (ev\<lparr> listeners := kept \<rparr>)"
    by auto
  with Nil show ?case by (auto simp: frame_refl)
next
  case (Cons l rest)
  let ?ev1 = "ev\<lparr> listeners := kept_after l kept @ rest \<rparr>"
  have len: "length (kept @ rest) \<le> length (listeners ev)" using Cons.prems(3) by simp
  have one: "\<exists>k\<le>length (l # rest).
       map_of (P_EVENT_SLOTS this') event =
         Some (ev\<lparr> listeners := kept @ filter (\<lambda>l. \<not> once l) (take k (l # rest)) @ drop k (l # rest) \<rparr>) \<and>
       invoked event tr = map callback (take k (l # rest)) \<and>
       frame {event, ''error''} this this'"
    if s: "map_of (P_EVENT_SLOTS this2) event = Some ev"
      and f: "frame {''error''} this this2"
      and t': "this' = spliced_out event l (kept @ rest) this2"
      and tr: "invoked event tr = [callback l]"
    for this2
  proof -
    have "map_of (P_EVENT_SLOTS this') event = Some ?ev1"
      using slot_spliced_out [OF s Cons.prems(3)] t' by simp
    moreover have "frame ({''error''} \<union> {event}) this this'"
      using frame_trans [OF f frame_spliced_out [OF s len]] t' by simp
    ultimately show ?thesis using tr
      by (intro exI [of _ "Suc 0"]) (simp add: kept_after_def insert_commute)
  qed
  have more: "\<exists>k\<le>length (l # rest).
       map_of (P_EVENT_SLOTS this') event =
         Some (ev\<lparr> listeners := kept @ filter (\<lambda>l. \<not> once l) (take k (l # rest)) @ drop k (l # rest) \<rparr>) \<and>
       invoked event tr = map callback (take k (l # rest)) \<and>
       frame {event, ''error''} this this'"
    if s: "map_of (P_EVENT_SLOTS this2) event = Some ev"
      and f: "frame {''error''} this this2"
      and d: "dispatch beh event args ib cb (kept_after l kept) rest
                (spliced_out event l (kept @ rest) this2) w2 = (r, this', w', tr')"
      and tr: "invoked event tr = callback l # invoked event tr'"
    for this2 w2 tr'
  proof -
    have s1: "map_of (P_EVENT_SLOTS (spliced_out event l (kept @ rest) this2)) event = Some ?ev1"
      using slot_spliced_out [OF s Cons.prems(3)] by simp
    have f1: "frame ({''error''} \<union> {event}) this (spliced_out event l (kept @ rest) this2)"
      using frame_trans [OF f frame_spliced_out [OF s len]] by simp
    from Cons.IH [OF d s1] obtain k where k: "k \<le> length rest"
      and fin: "map_of (P_EVENT_SLOTS this') event =
         Some (?ev1\<lparr> listeners := kept_after l kept @ filter (\<lambda>l. \<not> once l) (take k rest) @ drop k rest \<rparr>)"
      and inv: "invoked event tr' = map callback (take k rest)"
      and f2: "frame {event, ''error''} (spliced_out event l (kept @ rest) this2) this'"
      by auto
    have "frame {event, ''error''} this this'"
      using frame_trans [OF f1 f2] by (simp add: insert_commute)
    with k fin inv tr show ?thesis
      by (intro exI [of _ "Suc k"]) (simp add: kept_after_filter)
  qed
  from Cons.prems(1) show ?case
  proof (cases rule: dispatch_Cons_cases)
    case (interrupt w1)
    then show ?thesis using one [OF Cons.prems(2) frame_refl] by simp
  next
    case (returned ret w1 tr')
    then show ?thesis using more [OF Cons.prems(2) frame_refl] by simp
  next
    case (rethrow e w1)
    then show ?thesis using one [OF Cons.prems(2) frame_refl] by simp
  next
    case (error_throws e w1 e' this2 tr2)
    from nested [OF error_throws(2,3)] have f: "frame {''error''} this this2"
      and i: "invoked event tr2 = []" by auto
    have s: "map_of (P_EVENT_SLOTS this2) event = Some ev"
      using f Cons.prems(2) error_throws(2) by (simp add: frame_def)
    show ?thesis using one [OF s f] error_throws i by simp
  next
    case (stop e w1 b this2 tr2)
    from nested [OF stop(2,3)] have f: "frame {''error''} this this2"
      and i: "invoked event tr2 = []" by auto
    have s: "map_of (P_EVENT_SLOTS this2) event = Some ev"
      using f Cons.prems(2) stop(2) by (simp add: frame_def)
    show ?thesis using one [OF s f] stop i by simp
  next
    case (continue e w1 b this2 w2 tr2 tr')
    from nested [OF continue(2,3)] have f: "frame {''error''} this this2"
      and i: "invoked event tr2 = []" by auto
    have s: "map_of (P_EVENT_SLOTS this2) event = Some ev"
      using f Cons.prems(2) continue(2) by (simp add: frame_def)
    show ?thesis using more [OF s f continue(5)] continue(6) i by (simp add: invoked_append)
  qed
qed

subsection \<open>The log of a dispatch\<close>

lemma each_suffix_iff:
  "each_suffix Q tr \<longleftrightarrow> (\<forall>pre c post. tr = pre @ c # post \<longrightarrow> Q c post)"
proof (induction tr)
  case Nil
  show ?case by simp
next
  case (Cons x tr)
  show ?case
  proof
    assume a: "each_suffix Q (x # tr)"
    show "\<forall>pre c post. x # tr = pre @ c # post \<longrightarrow> Q c post"
    proof (intro allI impI)
      fix pre c post assume e: "x # tr = pre @ c # post"
      show "Q c post"
      proof (cases pre)
        case Nil
        with e a show ?thesis by simp
      next
        case (Cons y pre')
        with e have "tr = pre' @ c # post" by simp
        with a Cons.IH show ?thesis by auto
      qed
    qed
  next
    assume a: "\<forall>pre c post. x # tr = pre @ c # post \<longrightarrow> Q c post"
    then have "Q x tr" by (metis append_Nil)
    moreover have "\<forall>pre c post. tr = pre @ c # post \<longrightarrow> Q c post"
      using a by (metis append_Cons)
    ultimately show "each_suffix Q (x # tr)" using Cons.IH by simp
  qed
qed

lemma each_suffix_append:
  "each_suffix Q (xs @ ys) \<longleftrightarrow> each_suffix (\<lambda>c post. Q c (post @ ys)) xs \<and> each_suffix Q ys"
  by (induction xs) auto

lemma each_suffix_all: "(\<And>c post. c \<in> set xs \<Longrightarrow> Q c post) \<Longrightarrow> each_suffix Q xs"
  by (induction xs) auto

lemma invoked_other: "list_all (of_event e) tr \<Longrightarrow> event \<noteq> e \<Longrightarrow> invoked event tr = []"
  by (induction event tr rule: invoked.induct) auto

text \<open>A dispatch of "error": only invocations of its listeners, a throw ends it.\<close>

lemma dispatch_error_trace:
  "dispatch beh ''error'' args ib cb kept rest this w = (r, this', w', tr) \<Longrightarrow>
   list_all (of_event ''error'') tr \<and>
   each_suffix (\<lambda>c post. threw c \<noteq> None \<longrightarrow> post = []) tr \<and>
   (case r of Inl e \<Rightarrow> tr \<noteq> [] \<and> threw (last tr) = Some e
            | Inr b \<Rightarrow> b \<and> list_all (\<lambda>c. threw c = None) tr)"
proof (induction rest arbitrary: kept this w tr)
  case Nil
  then show ?case by auto
next
  case (Cons l rest)
  from Cons.prems show ?case
  proof (cases rule: dispatch_Cons_cases)
    case (returned ret w1 tr')
    from Cons.IH [OF returned(3)] returned(4) show ?thesis
      by (auto split: sum.splits)
  qed auto
qed

lemma emit_error_trace:
  assumes "emit beh ''error'' a this w = (r, this', w', tr)"
  shows "\<exists>tr'. tr = Emit ''error'' a # tr' \<and> list_all (of_event ''error'') tr' \<and>
           each_suffix (\<lambda>c post. threw c \<noteq> None \<longrightarrow> post = []) tr' \<and>
           (case r of Inl e \<Rightarrow> tr' \<noteq> [] \<and> threw (last tr') = Some e
                    | Inr b \<Rightarrow> list_all (\<lambda>c. threw c = None) tr')"
proof (cases "map_of (P_EVENT_SLOTS this) ''error''")
  case None
  with assms show ?thesis by (auto simp: emit_dispatch)
next
  case (Some ev)
  show ?thesis
  proof (cases "listeners ev = []")
    case True
    with assms Some show ?thesis by (auto simp: emit_dispatch)
  next
    case False
    with assms Some obtain tr' where
      d: "dispatch beh ''error'' a (truthy (interruptable (config ev)))
          (truthy (continueOnError (config ev))) []
            (listeners ev) this w = (r, this', w', tr')"
      and t: "tr = Emit ''error'' a # tr'"
      by (auto simp: emit_dispatch logged_eq)
    from dispatch_error_trace [OF d] t show ?thesis by (auto split: sum.splits)
  qed
qed

lemma emit_listeners_gen:
  assumes nested: "\<And>e t v r2 t2 v2 tr2. event \<noteq> ''error'' \<Longrightarrow>
      emit beh ''error'' [e] t v = (r2, t2, v2, tr2) \<Longrightarrow>
      frame {''error''} t t2 \<and> invoked event tr2 = []"
    and "emit beh event args this w = (r, this', w', tr)"
    and "map_of (P_EVENT_SLOTS this) event = Some ev"
  shows "\<exists>k\<le>length (listeners ev).
       map_of (P_EVENT_SLOTS this') event =
         Some (ev\<lparr> listeners := filter (\<lambda>l. \<not> once l) (take k (listeners ev)) @
                                  drop k (listeners ev) \<rparr>) \<and>
       invoked event tr = map callback (take k (listeners ev)) \<and>
       frame {event, ''error''} this this'"
proof (cases "listeners ev = []")
  case True
  with assms(2,3) have "this' = this" "tr = [Emit event args]"
    by (auto simp: emit_dispatch)
  with True assms(3) show ?thesis by (simp add: frame_refl)
next
  case False
  with assms(2,3) obtain tr' where
    d: "dispatch beh event args (truthy (interruptable (config ev)))
          (truthy (continueOnError (config ev))) []
          (listeners ev) this w = (r, this', w', tr')"
    and t: "tr = Emit event args # tr'"
    by (auto simp: emit_dispatch logged_eq)
  from dispatch_listeners_gen [of event beh, OF nested d assms(3)] t show ?thesis
    by auto
qed

lemma emit_error_frame:
  assumes "emit beh ''error'' a this w = (r, this', w', tr)"
  shows "frame {''error''} this this'"
proof (cases "map_of (P_EVENT_SLOTS this) ''error''")
  case None
  with assms show ?thesis by (auto simp: emit_dispatch frame_refl)
next
  case (Some ev)
  from emit_listeners_gen [of "''error''" beh, OF _ assms Some] show ?thesis by auto
qed

lemma emit_error_nested:
  assumes "event \<noteq> ''error''" and "emit beh ''error'' a t v = (r2, t2, v2, tr2)"
  shows "frame {''error''} t t2 \<and> invoked event tr2 = []"
  using emit_error_frame [OF assms(2)] emit_error_trace [OF assms(2)] assms(1)
  by (auto simp: invoked_other)

lemma emit_listeners:
  assumes "emit beh event args this w = (r, this', w', tr)"
    and "map_of (P_EVENT_SLOTS this) event = Some ev"
  shows "\<exists>k\<le>length (listeners ev).
       map_of (P_EVENT_SLOTS this') event =
         Some (ev\<lparr> listeners := filter (\<lambda>l. \<not> once l) (take k (listeners ev)) @
                                  drop k (listeners ev) \<rparr>) \<and>
       invoked event tr = map callback (take k (listeners ev)) \<and>
       frame {event, ''error''} this this'"
  using emit_listeners_gen [OF emit_error_nested assms] .

lemma emit_frame:
  assumes "emit beh event args this w = (r, this', w', tr)"
  shows "frame {event, ''error''} this this'"
proof (cases "map_of (P_EVENT_SLOTS this) event")
  case None
  with assms show ?thesis by (auto simp: emit_dispatch frame_refl split: if_splits)
next
  case (Some ev)
  from emit_listeners [OF assms Some] show ?thesis by auto
qed

lemma of_event_unique: "of_event e c \<Longrightarrow> of_event e' c \<Longrightarrow> e = e'"
  by (cases c) auto



text \<open>Escalation, stopping after an error, and what emit returns or throws.\<close>

lemma dispatch_result:
  "dispatch beh event args ib cb kept rest this w = (r, this', w', tr) \<Longrightarrow>
   (\<forall>e. r = Inl e \<longleftrightarrow> tr \<noteq> [] \<and> of_event ''error'' (last tr) \<and> threw (last tr) = Some e) \<and>
   (\<forall>b. r = Inr b \<longrightarrow> b)"
proof (induction rest arbitrary: kept this w tr)
  case Nil
  then show ?case by auto
next
  case (Cons l rest)
  from Cons.prems show ?case
  proof (cases rule: dispatch_Cons_cases)
    case (interrupt w1)
    then show ?thesis by auto
  next
    case (returned ret w1 tr')
    from Cons.IH [OF returned(3)] returned(4) show ?thesis
      by (cases "tr' = []") auto
  next
    case (rethrow e w1)
    then show ?thesis by auto
  next
    case (error_throws e w1 e' this2 tr2)
    from emit_error_trace [OF error_throws(3)] obtain tr' where
      t: "tr2 = Emit ''error'' [e] # tr'" and a: "list_all (of_event ''error'') tr'"
      and l: "tr' \<noteq> []" "threw (last tr') = Some e'" by auto
    have "of_event ''error'' (last tr')" using a l(1) by (simp add: list_all_iff)
    with error_throws(4,6) t l show ?thesis by auto
  next
    case (stop e w1 b this2 tr2)
    from emit_error_trace [OF stop(3)] obtain tr' where
      t: "tr2 = Emit ''error'' [e] # tr'"
      and n: "list_all (\<lambda>c. threw c = None) tr'" by auto
    have "tr' \<noteq> [] \<Longrightarrow> threw (last tr') = None" using n by (simp add: list_all_iff)
    with stop(5,7) t show ?thesis by (cases "tr' = []") auto
  next
    case (continue e w1 b this2 w2 tr2 tr')
    from emit_error_trace [OF continue(3)] obtain tr2' where
      t: "tr2 = Emit ''error'' [e] # tr2'"
      and n: "list_all (\<lambda>c. threw c = None) tr2'" by auto
    have l: "tr2' \<noteq> [] \<Longrightarrow> threw (last tr2') = None" using n by (simp add: list_all_iff)
    show ?thesis
    proof (cases "tr' = []")
      case True
      with Cons.IH [OF continue(5)] have "\<forall>e. r \<noteq> Inl e" "\<forall>b. r = Inr b \<longrightarrow> b" by auto
      with True continue(6) t l show ?thesis by (cases "tr2' = []") auto
    next
      case False
      with Cons.IH [OF continue(5)] continue(6) show ?thesis by auto
    qed
  qed
qed

lemma dispatch_escalation:
  "dispatch beh event args ib cb kept rest this w = (r, this', w', tr) \<Longrightarrow>
   event \<noteq> ''error'' \<Longrightarrow>
   each_suffix (\<lambda>c post. of_event event c \<longrightarrow>
      (\<forall>e. threw c = Some e \<longrightarrow> (\<exists>post'. post = Emit ''error'' [e] # post'))) tr \<and>
   (\<not> cb \<longrightarrow> each_suffix (\<lambda>c post. of_event event c \<and> threw c \<noteq> None \<longrightarrow>
      invoked event post = []) tr) \<and>
   each_suffix (\<lambda>c post. of_event ''error'' c \<and> threw c \<noteq> None \<longrightarrow> post = []) tr"
proof (induction rest arbitrary: kept this w tr)
  case Nil
  then show ?case by auto
next
  case (Cons l rest)
  from Cons.prems(1) show ?case
  proof (cases rule: dispatch_Cons_cases)
    case (interrupt w1)
    then show ?thesis using Cons.prems(2) by auto
  next
    case (returned ret w1 tr')
    from Cons.IH [OF returned(3) Cons.prems(2)] returned(4) Cons.prems(2) show ?thesis by auto
  next
    case (rethrow e w1)
    then show ?thesis using Cons.prems(2) by auto
  next
    case (error_throws e w1 e' this2 tr2)
    from emit_error_trace [OF error_throws(3)] obtain tr' where
      t: "tr2 = Emit ''error'' [e] # tr'" and a: "list_all (of_event ''error'') tr'"
      and s: "each_suffix (\<lambda>c post. threw c \<noteq> None \<longrightarrow> post = []) tr'" by auto
    have n: "\<And>c. c \<in> set tr' \<Longrightarrow> \<not> of_event event c"
      using a Cons.prems(2) by (auto simp: list_all_iff dest: of_event_unique)
    have 1: "each_suffix (\<lambda>c post. of_event event c \<longrightarrow>
      (\<forall>e. threw c = Some e \<longrightarrow> (\<exists>post'. post = Emit ''error'' [e] # post'))) tr'"
      using n by (intro each_suffix_all) simp
    have 2: "each_suffix (\<lambda>c post. of_event event c \<and> threw c \<noteq> None \<longrightarrow>
      invoked event post = []) tr'"
      using n by (intro each_suffix_all) simp
    have 3: "each_suffix (\<lambda>c post. of_event ''error'' c \<and> threw c \<noteq> None \<longrightarrow> post = []) tr'"
      using s by (simp add: each_suffix_iff)
    have 4: "invoked event tr' = []" using a Cons.prems(2) by (simp add: invoked_other)
    from error_throws(6) t 1 2 3 4 Cons.prems(2) show ?thesis by simp
  next
    case (stop e w1 b this2 tr2)
    from emit_error_trace [OF stop(3)] obtain tr' where
      t: "tr2 = Emit ''error'' [e] # tr'" and a: "list_all (of_event ''error'') tr'"
      and s: "each_suffix (\<lambda>c post. threw c \<noteq> None \<longrightarrow> post = []) tr'" by auto
    have n: "\<And>c. c \<in> set tr' \<Longrightarrow> \<not> of_event event c"
      using a Cons.prems(2) by (auto simp: list_all_iff dest: of_event_unique)
    have 1: "each_suffix (\<lambda>c post. of_event event c \<longrightarrow>
      (\<forall>e. threw c = Some e \<longrightarrow> (\<exists>post'. post = Emit ''error'' [e] # post'))) tr'"
      using n by (intro each_suffix_all) simp
    have 2: "each_suffix (\<lambda>c post. of_event event c \<and> threw c \<noteq> None \<longrightarrow>
      invoked event post = []) tr'"
      using n by (intro each_suffix_all) simp
    have 3: "each_suffix (\<lambda>c post. of_event ''error'' c \<and> threw c \<noteq> None \<longrightarrow> post = []) tr'"
      using s by (simp add: each_suffix_iff)
    have 4: "invoked event tr' = []" using a Cons.prems(2) by (simp add: invoked_other)
    from stop(7) t 1 2 3 4 Cons.prems(2) show ?thesis by simp
  next
    case (continue e w1 b this2 w2 tr2 tr')
    from emit_error_trace [OF continue(3)] obtain tr2' where
      t: "tr2 = Emit ''error'' [e] # tr2'" and a: "list_all (of_event ''error'') tr2'"
      and nt: "list_all (\<lambda>c. threw c = None) tr2'" by auto
    have n: "\<And>c. c \<in> set tr2' \<Longrightarrow> \<not> of_event event c"
      using a Cons.prems(2) by (auto simp: list_all_iff dest: of_event_unique)
    have 1: "each_suffix (\<lambda>c post. of_event event c \<longrightarrow>
      (\<forall>e. threw c = Some e \<longrightarrow> (\<exists>post'. post @ tr' = Emit ''error'' [e] # post'))) tr2'"
      using n by (intro each_suffix_all) simp
    have 3: "each_suffix (\<lambda>c post. of_event ''error'' c \<and> threw c \<noteq> None \<longrightarrow> post @ tr' = []) tr2'"
      using nt by (intro each_suffix_all) (simp add: list_all_iff)
    from Cons.IH [OF continue(5) Cons.prems(2)] continue(4,6) t 1 3 Cons.prems(2)
    show ?thesis by (simp add: each_suffix_append)
  qed
qed

section \<open>Properties of emit\<close>

text \<open>
  A call of \<open>emit\<close> either finds nothing to do, or fails on an inherited name, or logs
  itself and runs the loop from index \<open>0\<close> over the listeners of the event.
\<close>

lemma emit_cases [consumes 1, case_names idle type_error dispatched]:
  assumes "emit beh event args this w = (r, this', w', tr)"
  obtains "(map_of (P_EVENT_SLOTS this) event = None \<and> \<not> inherited this event) \<or>
           (\<exists>ev. map_of (P_EVENT_SLOTS this) event = Some ev \<and> listeners ev = [])"
      "r = Inr False" "this' = this" "w' = w" "tr = [Emit event args]"
  | "map_of (P_EVENT_SLOTS this) event = None" "inherited this event"
      "r = Inl VTypeError" "this' = this" "w' = w" "tr = [Emit event args]"
  | ev tr' where "map_of (P_EVENT_SLOTS this) event = Some ev" "listeners ev \<noteq> []"
      "dispatch beh event args (truthy (interruptable (config ev)))
         (truthy (continueOnError (config ev))) []
         (listeners ev) this w = (r, this', w', tr')"
      "tr = Emit event args # tr'"
proof (cases "map_of (P_EVENT_SLOTS this) event")
  case None
  show thesis
  proof (cases "inherited this event")
    case True
    with assms None show thesis by (intro that(2)) (auto simp: emit_dispatch)
  next
    case False
    with assms None show thesis by (intro that(1)) (auto simp: emit_dispatch)
  qed
next
  case (Some ev)
  show thesis
  proof (cases "listeners ev = []")
    case True
    with assms Some show thesis by (intro that(1)) (auto simp: emit_dispatch)
  next
    case False
    with assms Some obtain tr' where
      "dispatch beh event args (truthy (interruptable (config ev)))
         (truthy (continueOnError (config ev))) []
         (listeners ev) this w = (r, this', w', tr')" "tr = Emit event args # tr'"
      by (auto simp: emit_dispatch logged_eq)
    with Some False show thesis by (intro that(3)) auto
  qed
qed

lemma after_emit_marker:
  assumes "Emit event args # tr' = pre @ Invoke ev cb a out # post"
  obtains pre' where "tr' = pre' @ Invoke ev cb a out # post"
  using assms by (cases pre) auto

subsection \<open>Interruption\<close>



subsection \<open>What emit returns\<close>

lemma dispatch_error_throw_last:
  assumes "dispatch beh event args ib cb kept rest this w = (r, this', w', tr)"
  shows "each_suffix (\<lambda>c post. of_event ''error'' c \<and> threw c \<noteq> None \<longrightarrow> post = []) tr"
proof (cases "event = ''error''")
  case True
  from dispatch_error_trace [OF assms [unfolded True]]
  have "each_suffix (\<lambda>c post. threw c \<noteq> None \<longrightarrow> post = []) tr" by simp
  then show ?thesis by (simp add: each_suffix_iff)
next
  case False
  from dispatch_escalation [OF assms False] show ?thesis by simp
qed

lemma emit_error_throw:
  assumes "emit beh event args this w = (r, this', w', tr)"
    and "tr = pre @ Invoke ''error'' cb a (Thrown e) # post"
  shows "post = [] \<and> r = Inl e"
  using assms(1)
proof (cases rule: emit_cases)
  case idle
  with assms(2) show ?thesis by (auto simp: Cons_eq_append_conv)
next
  case type_error
  with assms(2) show ?thesis by (auto simp: Cons_eq_append_conv)
next
  case (dispatched ev tr')
  from assms(2) dispatched(4) obtain pre' where
    p: "tr' = pre' @ Invoke ''error'' cb a (Thrown e) # post"
    by (auto elim: after_emit_marker)
  from dispatch_error_throw_last [OF dispatched(3)] p have post: "post = []"
    by (auto simp: each_suffix_iff)
  with p have "tr' \<noteq> []" "last tr' = Invoke ''error'' cb a (Thrown e)" by auto
  with dispatch_result [OF dispatched(3)] have "r = Inl e" by simp
  with post show ?thesis by simp
qed

lemma emit_result_cases:
  assumes "emit beh event args this w = (r, this', w', tr)"
    and "map_of (P_EVENT_SLOTS this) event = Some ev" and "listeners ev \<noteq> []"
  shows "(r = Inr True \<and> (\<forall>cb a e. Invoke ''error'' cb a (Thrown e) \<notin> set tr)) \<or>
         (\<exists>e cb a. r = Inl e \<and> last tr = Invoke ''error'' cb a (Thrown e))"
  using assms(1)
proof (cases rule: emit_cases)
  case idle
  with assms(2,3) show ?thesis by auto
next
  case type_error
  with assms(2) show ?thesis by auto
next
  case (dispatched ev' tr')
  note res = dispatch_result [OF dispatched(3)]
  show ?thesis
  proof (cases r)
    case (Inl e)
    with res have n: "tr' \<noteq> []" and o: "of_event ''error'' (last tr')"
      and t: "threw (last tr') = Some e" by auto
    from o t obtain cb a where "last tr' = Invoke ''error'' cb a (Thrown e)"
      by (cases "last tr'" rule: threw.cases) auto
    with n dispatched(4) Inl show ?thesis by auto
  next
    case (Inr b)
    with res have b: "b" by simp
    have "Invoke ''error'' cb a (Thrown e) \<notin> set tr" for cb a e
    proof
      assume "Invoke ''error'' cb a (Thrown e) \<in> set tr"
      then obtain pre post where "tr = pre @ Invoke ''error'' cb a (Thrown e) # post"
        by (auto simp: in_set_conv_decomp)
      from emit_error_throw [OF assms(1) this] Inr show False by simp
    qed
    with Inr b show ?thesis by simp
  qed
qed

text \<open>
  Claim C7, as stated: with at least one listener present \<open>emit\<close> returns \<open>true\<close>, also
  when a listener errored. It does not when the event is \<open>"error"\<close> itself: with one
  listener of \<open>"error"\<close> that throws, \<open>emit("error", 7)\<close> throws what the listener threw.
\<close>

theorem emit_throws_despite_listeners:
  "listenerCount ''error'' ex_bad_handler = Inr 1 \<and>
   fst (emit ex_beh ''error'' [VNum 7] ex_bad_handler ()) = Inl (VStr ''bad handler'') \<and>
   fst (emit ex_beh ''error'' [VNum 7] ex_bad_handler ()) \<noteq> Inr True"
  by code_simp

text \<open>
  Claim C7, amended. Without a record for the event, when its name is not inherited from
  \<open>Object.prototype\<close>, or with an empty list of listeners, \<open>emit\<close> returns \<open>false\<close>,
  invokes nothing and leaves the emitter and the rest of the program as they were.
  Without a record for an inherited name (\<open>"toString"\<close>, \<open>"constructor"\<close>, ...)
  \<open>emit\<close> throws a \<open>TypeError\<close>, and again nothing is invoked or changed. With at
  least one listener \<open>emit\<close> returns \<open>true\<close>, also when a listener errored or
  interrupted, unless a listener of \<open>"error"\<close> threw during the call (in a dispatch of
  \<open>"error"\<close> itself or in an escalation): then \<open>emit\<close> throws what that listener
  threw, and that invocation is the last entry of the log. (The \<open>emit\<close> of this
  statement has quiet listeners; with listeners that call the emitter the last part
  holds of every call that ends, which is \<open>emit_r_result\<close> below.)
\<close>

theorem emit_returns:
  "(((map_of (P_EVENT_SLOTS this) event = None \<and> \<not> inherited this event) \<or>
     (\<exists>ev. map_of (P_EVENT_SLOTS this) event = Some ev \<and> listeners ev = [])) \<longrightarrow>
      emit beh event args this w = (Inr False, this, w, [Emit event args])) \<and>
   (map_of (P_EVENT_SLOTS this) event = None \<and> inherited this event \<longrightarrow>
      emit beh event args this w = (Inl VTypeError, this, w, [Emit event args])) \<and>
   (\<forall>ev r this' w' tr.
      map_of (P_EVENT_SLOTS this) event = Some ev \<and> listeners ev \<noteq> [] \<and>
      emit beh event args this w = (r, this', w', tr) \<longrightarrow>
        (r = Inr True \<and> (\<forall>cb a e. Invoke ''error'' cb a (Thrown e) \<notin> set tr)) \<or>
        (\<exists>e cb a. r = Inl e \<and> last tr = Invoke ''error'' cb a (Thrown e)))"
proof (intro conjI impI allI)
  assume "(map_of (P_EVENT_SLOTS this) event = None \<and> \<not> inherited this event) \<or>
     (\<exists>ev. map_of (P_EVENT_SLOTS this) event = Some ev \<and> listeners ev = [])"
  then show "emit beh event args this w = (Inr False, this, w, [Emit event args])"
    by (auto simp: emit_dispatch)
next
  assume "map_of (P_EVENT_SLOTS this) event = None \<and> inherited this event"
  then show "emit beh event args this w = (Inl VTypeError, this, w, [Emit event args])"
    by (auto simp: emit_dispatch)
next
  fix ev r this' w' tr
  assume "map_of (P_EVENT_SLOTS this) event = Some ev \<and> listeners ev \<noteq> [] \<and>
      emit beh event args this w = (r, this', w', tr)"
  then have a: "map_of (P_EVENT_SLOTS this) event = Some ev" and b: "listeners ev \<noteq> []"
    and c: "emit beh event args this w = (r, this', w', tr)" by simp_all
  show "(r = Inr True \<and> (\<forall>cb a e. Invoke ''error'' cb a (Thrown e) \<notin> set tr)) \<or>
        (\<exists>e cb a. r = Inl e \<and> last tr = Invoke ''error'' cb a (Thrown e))"
    by (rule emit_result_cases [OF c a b])
qed

theorem emit_returns_witness:
  "(map_of (P_EVENT_SLOTS ex_bad_handler) ''q'' = None \<and>
    \<not> inherited ex_bad_handler ''q'') \<and>
   (map_of (P_EVENT_SLOTS ex_bad_handler) ''toString'' = None \<and>
    inherited ex_bad_handler ''toString'') \<and>
   emit ex_beh ''toString'' [VNum 7] ex_bad_handler () =
     (Inl VTypeError, ex_bad_handler, (), [Emit ''toString'' [VNum 7]]) \<and>
   emit ex_beh ''q'' [VNum 7] ex_bad_handler () = (Inr False, ex_bad_handler, (), [Emit ''q'' [VNum 7]]) \<and>
   map_of (P_EVENT_SLOTS ex_handled) ''x'' = Some ex_throwing_slot \<and>
   listeners ex_throwing_slot \<noteq> [] \<and>
   fst (emit ex_beh ''x'' [] ex_handled ()) = Inr True \<and>
   map_of (P_EVENT_SLOTS ex_bad_handler) ''error'' = Some ex_bad_slot \<and>
   listeners ex_bad_slot \<noteq> [] \<and>
   fst (emit ex_beh ''error'' [] ex_bad_handler ()) = Inl (VStr ''bad handler'')"
proof -
  have a: "map_of (P_EVENT_SLOTS ex_bad_handler) ''q'' = None \<and>
    \<not> inherited ex_bad_handler ''q''" by code_simp
  have a': "map_of (P_EVENT_SLOTS ex_bad_handler) ''toString'' = None \<and>
    inherited ex_bad_handler ''toString''" by code_simp
  have b: "map_of (P_EVENT_SLOTS ex_handled) ''x'' = Some ex_throwing_slot \<and>
    listeners ex_throwing_slot \<noteq> []" by code_simp
  have c: "emit ex_beh ''x'' [] ex_handled () =
    (Inr True, ex_handled, (),
     [Emit ''x'' [], Invoke ''x'' 1 [] (Thrown (VStr ''boom'')), Emit ''error'' [VStr ''boom''],
      Invoke ''error'' 2 [VStr ''boom''] (Returned VUndefined)])" by code_simp
  have d: "map_of (P_EVENT_SLOTS ex_bad_handler) ''error'' = Some ex_bad_slot \<and>
    listeners ex_bad_slot \<noteq> []" by code_simp
  have e: "emit ex_beh ''error'' [] ex_bad_handler () =
    (Inl (VStr ''bad handler''), ex_bad_handler, (),
     [Emit ''error'' [], Invoke ''error'' 4 [] (Thrown (VStr ''bad handler''))])" by code_simp
  from emit_returns [of ex_bad_handler "''q''" ex_beh "[VNum 7]" "()"] a
  have 1: "emit ex_beh ''q'' [VNum 7] ex_bad_handler () =
    (Inr False, ex_bad_handler, (), [Emit ''q'' [VNum 7]])" by blast
  from emit_returns [of ex_handled "''x''" ex_beh "[]" "()"] b c
  have 2: "fst (emit ex_beh ''x'' [] ex_handled ()) = Inr True" by simp
  from emit_returns [of ex_bad_handler "''error''" ex_beh "[]" "()"] d e
  have 3: "fst (emit ex_beh ''error'' [] ex_bad_handler ()) = Inl (VStr ''bad handler'')" by simp
  from emit_returns [of ex_bad_handler "''toString''" ex_beh "[VNum 7]" "()"] a'
  have 4: "emit ex_beh ''toString'' [VNum 7] ex_bad_handler () =
    (Inl VTypeError, ex_bad_handler, (), [Emit ''toString'' [VNum 7]])" by blast
  from a a' b d 1 2 3 4 show ?thesis by simp
qed

subsection \<open>Errors of listeners\<close>

text \<open>
  Claim C4, as stated: when a listener of an event other than \<open>"error"\<close> throws and
  \<open>continueOnError\<close> is false, the dispatch stops and \<open>emit\<close> returns \<open>true\<close>. When the
  \<open>"error"\<close> listener that receives the escalated value throws in turn, \<open>emit("x")\<close>
  does not return: it throws that second error.
\<close>

theorem emit_throws_after_escalation:
  "map_of (P_EVENT_SLOTS ex_bad_handler) ''x'' = Some ex_throwing_slot \<and>
   continueOnError (config ex_throwing_slot) = Some False \<and>
   emit ex_beh ''x'' [] ex_bad_handler () =
     (Inl (VStr ''bad handler''), ex_bad_handler, (),
      [Emit ''x'' [], Invoke ''x'' 1 [] (Thrown (VStr ''boom'')), Emit ''error'' [VStr ''boom''],
       Invoke ''error'' 4 [VStr ''boom''] (Thrown (VStr ''bad handler''))]) \<and>
   fst (emit ex_beh ''x'' [] ex_bad_handler ()) \<noteq> Inr True"
  by code_simp

text \<open>
  Claim C4, amended. In an \<open>emit\<close> of an event other than \<open>"error"\<close>, every invocation of
  one of its listeners that throws \<open>e\<close> is followed at once by a call
  \<open>emit("error", e)\<close> on the same emitter. With \<open>continueOnError = false\<close> no further
  listener of the event is invoked after it, and \<open>emit\<close> returns \<open>true\<close> unless a
  listener of \<open>"error"\<close> throws during that escalation. In any \<open>emit\<close>, an invocation of
  an \<open>"error"\<close> listener that throws \<open>e\<close> is the last entry of the log (it is not escalated
  again) and \<open>emit\<close> throws \<open>e\<close> to its caller.
\<close>

theorem listener_error_escalated:
  assumes "emit beh event args this w = (r, this', w', tr)"
    and "map_of (P_EVENT_SLOTS this) event = Some ev"
  shows "(event \<noteq> ''error'' \<longrightarrow>
           (\<forall>pre cb a e post. tr = pre @ Invoke event cb a (Thrown e) # post \<longrightarrow>
              (\<exists>post'. post = Emit ''error'' [e] # post') \<and>
              (\<not> truthy (continueOnError (config ev)) \<longrightarrow>
                 invoked event post = [] \<and>
                 ((\<forall>cb' a' e'. Invoke ''error'' cb' a' (Thrown e') \<notin> set post) \<longrightarrow> r = Inr True)))) \<and>
         (\<forall>pre cb a e post. tr = pre @ Invoke ''error'' cb a (Thrown e) # post \<longrightarrow>
            post = [] \<and> r = Inl e)"
proof (intro conjI impI allI)
  fix pre cb a e post
  assume "tr = pre @ Invoke ''error'' cb a (Thrown e) # post"
  from emit_error_throw [OF assms(1) this] show "post = []" "r = Inl e" by simp_all
next
  fix pre cb a e post
  assume ne: "event \<noteq> ''error''" and t: "tr = pre @ Invoke event cb a (Thrown e) # post"
  from assms(1) have
    "(\<exists>post'. post = Emit ''error'' [e] # post') \<and>
     (\<not> truthy (continueOnError (config ev)) \<longrightarrow> invoked event post = [])"
  proof (cases rule: emit_cases)
    case idle
    with t show ?thesis by (auto simp: Cons_eq_append_conv)
  next
    case type_error
    with t show ?thesis by (auto simp: Cons_eq_append_conv)
  next
    case (dispatched ev' tr')
    with assms(2) have ev: "ev' = ev" by simp
    from t dispatched(4) obtain pre' where
      p: "tr' = pre' @ Invoke event cb a (Thrown e) # post"
      by (auto elim: after_emit_marker)
    from dispatch_escalation [OF dispatched(3) [unfolded ev] ne] p show ?thesis
      by (auto simp: each_suffix_iff)
  qed
  then show "\<exists>post'. post = Emit ''error'' [e] # post'"
    and "\<not> truthy (continueOnError (config ev)) \<Longrightarrow> invoked event post = []" by simp_all
  show "r = Inr True"
    if "\<not> truthy (continueOnError (config ev))"
      and np: "\<forall>cb' a' e'. Invoke ''error'' cb' a' (Thrown e') \<notin> set post"
  proof -
    have ls: "listeners ev \<noteq> []"
      using assms t by (auto simp: emit_dispatch Cons_eq_append_conv)
    from emit_result_cases [OF assms ls] show ?thesis
    proof
      assume "r = Inr True \<and> (\<forall>cb a e. Invoke ''error'' cb a (Thrown e) \<notin> set tr)"
      then show ?thesis by simp
    next
      assume "\<exists>e cb a. r = Inl e \<and> last tr = Invoke ''error'' cb a (Thrown e)"
      then obtain e' cb' a' where l: "last tr = Invoke ''error'' cb' a' (Thrown e')" by blast
      have "post \<noteq> []"
      proof
        assume "post = []"
        with t l ne show False by simp
      qed
      with t l have "Invoke ''error'' cb' a' (Thrown e') \<in> set post"
        by (metis last_appendR last_ConsR last_in_set list.distinct(1))
      with np show ?thesis by blast
    qed
  qed
qed

theorem listener_error_escalated_witness:
  "map_of (P_EVENT_SLOTS ex_handled) ''x'' = Some ex_throwing_slot \<and>
   \<not> truthy (continueOnError (config ex_throwing_slot)) \<and>
   emit ex_beh ''x'' [] ex_handled () =
     (Inr True, ex_handled, (),
      [Emit ''x'' []] @ Invoke ''x'' 1 [] (Thrown (VStr ''boom'')) #
        [Emit ''error'' [VStr ''boom''], Invoke ''error'' 2 [VStr ''boom''] (Returned VUndefined)]) \<and>
   invoked ''x'' [Emit ''error'' [VStr ''boom''],
      Invoke ''error'' 2 [VStr ''boom''] (Returned VUndefined)] = [] \<and>
   map_of (P_EVENT_SLOTS ex_bad_handler) ''error'' = Some ex_bad_slot \<and>
   emit ex_beh ''error'' [] ex_bad_handler () =
     (Inl (VStr ''bad handler''), ex_bad_handler, (),
      [Emit ''error'' []] @ Invoke ''error'' 4 [] (Thrown (VStr ''bad handler'')) # [])"
proof -
  have s: "map_of (P_EVENT_SLOTS ex_handled) ''x'' = Some ex_throwing_slot" by code_simp
  have c: "\<not> truthy (continueOnError (config ex_throwing_slot))" by code_simp
  have e: "emit ex_beh ''x'' [] ex_handled () =
     (Inr True, ex_handled, (),
      [Emit ''x'' []] @ Invoke ''x'' 1 [] (Thrown (VStr ''boom'')) #
        [Emit ''error'' [VStr ''boom''], Invoke ''error'' 2 [VStr ''boom''] (Returned VUndefined)])"
    by code_simp
  have s': "map_of (P_EVENT_SLOTS ex_bad_handler) ''error'' = Some ex_bad_slot" by code_simp
  have e': "emit ex_beh ''error'' [] ex_bad_handler () =
     (Inl (VStr ''bad handler''), ex_bad_handler, (),
      [Emit ''error'' []] @ Invoke ''error'' 4 [] (Thrown (VStr ''bad handler'')) # [])"
    by code_simp
  from listener_error_escalated [OF e s] c
  have "invoked ''x'' [Emit ''error'' [VStr ''boom''],
      Invoke ''error'' 2 [VStr ''boom''] (Returned VUndefined)] = []"
    by blast
  moreover from listener_error_escalated [OF e' s']
  have "([]::call list) = [] \<and> (Inl (VStr ''bad handler'') :: val + bool) = Inl (VStr ''bad handler'')"
    by blast
  ultimately show ?thesis using s c e s' e' by simp
qed

section \<open>Properties of emit with listeners that call the emitter\<close>

subsection \<open>The loop, round by round\<close>

lemma current_slot_listeners:
  "current_listeners event this = (case slot_listeners event this of Some ls \<Rightarrow> ls | None \<Rightarrow> [])"
  by (simp add: current_listeners_def slot_listeners_def split: option.splits)

lemma slot_listeners_set_listeners:
  "slot_listeners n (set_listeners e ls this) =
     (if n = e then map_option (\<lambda>_. ls) (slot_listeners e this) else slot_listeners n this)"
  by (cases "map_of (P_EVENT_SLOTS this) e")
     (auto simp: slot_listeners_def slot_set_listeners)

lemma slot_listeners_finally_r:
  "slot_listeners n (finally_r e l i this) =
     (if n = e \<and> once l
      then map_option (\<lambda>ls. snd (splice (int i) (Some 1) ls)) (slot_listeners e this)
      else slot_listeners n this)"
  by (auto simp: finally_r_def slot_listeners_set_listeners current_slot_listeners
        split: option.splits)

lemma keeps_listenersD:
  "keeps_listeners rb event \<Longrightarrow> rb cb args this w = (out, this1, w1) \<Longrightarrow>
   slot_listeners event this1 = slot_listeners event this"
  unfolding keeps_listeners_def by (metis fst_conv snd_conv)

lemma map_logged_eq:
  "map_option (logged cs) x = Some (r, this', w', tr) \<longleftrightarrow>
     (\<exists>tr'. x = Some (r, this', w', tr') \<and> tr = cs @ tr')"
  by (cases x) (auto simp: logged_eq)

lemma emit_loop_r_cases
  [consumes 1, case_names finished interrupt returned rethrow error_throws stop continue]:
  assumes "emit_loop_r (Suc n) rb event args ib cb i this w = Some (r, this', w', tr)"
  obtains
    "\<not> i < length (current_listeners event this)"
      "r = Inr True" "this' = this" "w' = w" "tr = []"
  | l this1 w1 where "i < length (current_listeners event this)"
      "l = current_listeners event this ! i"
      "rb (callback l) args this w = (Returned (VBool False), this1, w1)" "ib"
      "r = Inr True" "this' = finally_r event l i this1" "w' = w1"
      "tr = [Invoke event (callback l) args (Returned (VBool False))]"
  | l ret this1 w1 tr' where "i < length (current_listeners event this)"
      "l = current_listeners event this ! i"
      "rb (callback l) args this w = (Returned ret, this1, w1)"
      "\<not> (ib \<and> ret = VBool False)"
      "emit_loop_r n rb event args ib cb (if once l then i else i + 1)
         (finally_r event l i this1) w1 = Some (r, this', w', tr')"
      "tr = Invoke event (callback l) args (Returned ret) # tr'"
  | l e this1 w1 where "i < length (current_listeners event this)"
      "l = current_listeners event this ! i"
      "rb (callback l) args this w = (Thrown e, this1, w1)" "event = ''error''"
      "r = Inl e" "this' = finally_r event l i this1" "w' = w1"
      "tr = [Invoke event (callback l) args (Thrown e)]"
  | l e this1 w1 e' this2 tr2 where "i < length (current_listeners event this)"
      "l = current_listeners event this ! i"
      "rb (callback l) args this w = (Thrown e, this1, w1)" "event \<noteq> ''error''"
      "emit_r n rb ''error'' [e] this1 w1 = Some (Inl e', this2, w', tr2)"
      "r = Inl e'" "this' = finally_r event l i this2"
      "tr = Invoke event (callback l) args (Thrown e) # tr2"
  | l e this1 w1 b this2 tr2 where "i < length (current_listeners event this)"
      "l = current_listeners event this ! i"
      "rb (callback l) args this w = (Thrown e, this1, w1)" "event \<noteq> ''error''"
      "emit_r n rb ''error'' [e] this1 w1 = Some (Inr b, this2, w', tr2)"
      "\<not> cb" "r = Inr True" "this' = finally_r event l i this2"
      "tr = Invoke event (callback l) args (Thrown e) # tr2"
  | l e this1 w1 b this2 w2 tr2 tr' where "i < length (current_listeners event this)"
      "l = current_listeners event this ! i"
      "rb (callback l) args this w = (Thrown e, this1, w1)" "event \<noteq> ''error''"
      "emit_r n rb ''error'' [e] this1 w1 = Some (Inr b, this2, w2, tr2)"
      "cb"
      "emit_loop_r n rb event args ib cb (if once l then i else i + 1)
         (finally_r event l i this2) w2 = Some (r, this', w', tr')"
      "tr = Invoke event (callback l) args (Thrown e) # tr2 @ tr'"
proof (cases "i < length (current_listeners event this)")
  case False
  with assms show thesis by (intro that(1)) (auto simp: emit_loop_r.simps)
next
  case lt: True
  define l where "l = current_listeners event this ! i"
  obtain out this1 w1 where b: "rb (callback l) args this w = (out, this1, w1)"
    by (cases "rb (callback l) args this w")
  note a = assms [unfolded emit_loop_r.simps Let_def, folded l_def]
  show thesis
  proof (cases out)
    case (Returned ret)
    show thesis
    proof (cases "ib \<and> ret = VBool False")
      case True
      with a lt b Returned show thesis by (intro that(2) [of l this1 w1]) (auto simp: l_def)
    next
      case False
      with a lt b Returned obtain tr' where
        "emit_loop_r n rb event args ib cb (if once l then i else i + 1)
           (finally_r event l i this1) w1 = Some (r, this', w', tr')"
        "tr = Invoke event (callback l) args (Returned ret) # tr'"
        by (auto simp: map_logged_eq logged_eq)
      with lt b Returned False show thesis
        by (intro that(3) [of l ret this1 w1 tr']) (auto simp: l_def)
    qed
  next
    case (Thrown e)
    show thesis
    proof (cases "event = ''error''")
      case True
      with a lt b Thrown show thesis by (intro that(4) [of l e this1 w1]) (auto simp: l_def)
    next
      case False
      from a lt b Thrown False obtain r2 this2 w2 tr2 where
        n: "emit_r n rb ''error'' [e] this1 w1 = Some (r2, this2, w2, tr2)"
        by (cases "emit_r n rb ''error'' [e] this1 w1") auto
      show thesis
      proof (cases r2)
        case (Inl e')
        with a lt b Thrown False n show thesis
          by (intro that(5) [of l e this1 w1 e' this2 tr2]) (auto simp: l_def)
      next
        case (Inr bb)
        show thesis
        proof (cases cb)
          case False
          with a lt b Thrown \<open>event \<noteq> ''error''\<close> n Inr show thesis
            by (intro that(6) [of l e this1 w1 bb this2 tr2]) (auto simp: l_def)
        next
          case True
          with a lt b Thrown \<open>event \<noteq> ''error''\<close> n Inr obtain tr' where
            "emit_loop_r n rb event args ib cb (if once l then i else i + 1)
               (finally_r event l i this2) w2 = Some (r, this', w', tr')"
            "tr = Invoke event (callback l) args (Thrown e) # tr2 @ tr'"
            by (auto simp: map_logged_eq logged_eq)
          with lt b Thrown \<open>event \<noteq> ''error''\<close> n Inr True show thesis
            by (intro that(7) [of l e this1 w1 bb this2 w2 tr2 tr']) (auto simp: l_def)
        qed
      qed
    qed
  qed
qed


lemma emit_r_cases [consumes 1, case_names idle type_error dispatched]:
  assumes "emit_r n rb event args this w = Some (r, this', w', tr)"
  obtains "(map_of (P_EVENT_SLOTS this) event = None \<and> \<not> inherited this event) \<or>
           (\<exists>ev. map_of (P_EVENT_SLOTS this) event = Some ev \<and> listeners ev = [])"
      "r = Inr False" "this' = this" "w' = w" "tr = [Emit event args]"
  | "map_of (P_EVENT_SLOTS this) event = None" "inherited this event"
      "r = Inl VTypeError" "this' = this" "w' = w" "tr = [Emit event args]"
  | m ev tr' where "n = Suc m" "map_of (P_EVENT_SLOTS this) event = Some ev"
      "listeners ev \<noteq> []"
      "emit_loop_r m rb event args (truthy (interruptable (config ev)))
         (truthy (continueOnError (config ev))) 0 this w = Some (r, this', w', tr')"
      "tr = Emit event args # tr'"
proof (cases n)
  case 0
  with assms show thesis by (simp add: emit_r.simps)
next
  case (Suc m)
  note a = assms [unfolded Suc emit_r.simps]
  show thesis
  proof (cases "map_of (P_EVENT_SLOTS this) event")
    case None
    show thesis
    proof (cases "inherited this event")
      case True
      with a None show thesis by (intro that(2)) auto
    next
      case False
      with a None show thesis by (intro that(1)) auto
    qed
  next
    case (Some ev)
    show thesis
    proof (cases "listeners ev = []")
      case True
      with a Some show thesis by (intro that(1)) auto
    next
      case False
      with a Some obtain tr' where
        "emit_loop_r m rb event args (truthy (interruptable (config ev)))
           (truthy (continueOnError (config ev))) 0 this w = Some (r, this', w', tr')"
        "tr = Emit event args # tr'"
        by (auto simp: map_logged_eq logged_eq)
      with Suc Some False show thesis by (intro that(3) [of m ev tr']) auto
    qed
  qed
qed

subsection \<open>The list of an event that the listeners leave alone\<close>

text \<open>
  A dispatch of \<open>"error"\<close> leaves the list of another event alone, as long as the
  listeners do, and invokes no listener of that event.
\<close>

lemma error_loop_other:
  assumes "keeps_listeners rb event" and "event \<noteq> ''error''"
    and "emit_loop_r n rb ''error'' args ib cb i this w = Some (r, this', w', tr)"
  shows "slot_listeners event this' = slot_listeners event this \<and> invoked event tr = []"
  using assms(3)
proof (induction n arbitrary: i this w r this' w' tr)
  case 0
  then show ?case by (simp add: emit_loop_r.simps)
next
  case (Suc n)
  from Suc.prems show ?case
  proof (cases rule: emit_loop_r_cases)
    case finished
    then show ?thesis by simp
  next
    case (interrupt l this1 w1)
    with keeps_listenersD [OF assms(1) interrupt(3)] assms(2) show ?thesis
      by (simp add: slot_listeners_finally_r)
  next
    case (returned l ret this1 w1 tr')
    from Suc.IH [OF returned(5)] keeps_listenersD [OF assms(1) returned(3)] assms(2) returned(6)
    show ?thesis by (simp add: slot_listeners_finally_r)
  next
    case (rethrow l e this1 w1)
    with keeps_listenersD [OF assms(1) rethrow(3)] assms(2) show ?thesis
      by (simp add: slot_listeners_finally_r)
  qed simp_all
qed

lemma emit_error_other:
  assumes "keeps_listeners rb event" and "event \<noteq> ''error''"
    and "emit_r n rb ''error'' args this w = Some (r, this', w', tr)"
  shows "slot_listeners event this' = slot_listeners event this \<and> invoked event tr = []"
  using assms(3)
proof (cases rule: emit_r_cases)
  case (dispatched m ev tr')
  from error_loop_other [OF assms(1,2) dispatched(4)] dispatched(5) show ?thesis by simp
qed simp_all

text \<open>
  The loop over the list of an event that the listeners leave alone: \<open>kept\<close> are the
  entries before the index, \<open>rest\<close> the entries from the index on.
\<close>

lemma invoked_first:
  "invoked event [c] = [cb] \<Longrightarrow> invoked event (c # tr) = cb # invoked event tr"
  by (cases c) (auto split: if_splits)

lemma splice_at_kept:
  "snd (splice (int (length kept)) (Some (Suc 0)) (kept @ l # rest)) = kept @ rest"
  by (simp add: splice_one)

lemma emit_loop_r_listeners:
  assumes "keeps_listeners rb event"
    and "emit_loop_r n rb event args ib cb (length kept) this w = Some (r, this', w', tr)"
    and "slot_listeners event this = Some (kept @ rest)"
  shows "\<exists>k\<le>length rest.
           invoked event tr = map callback (take k rest) \<and>
           slot_listeners event this' =
             Some (kept @ filter (\<lambda>l. \<not> once l) (take k rest) @ drop k rest)"
  using assms(2,3)
proof (induction n arbitrary: kept rest this w r this' w' tr)
  case 0
  then show ?case by (simp add: emit_loop_r.simps)
next
  case (Suc n)
  note cur = Suc.prems(2)
  have len: "current_listeners event this = kept @ rest"
    using cur by (simp add: current_slot_listeners)
  have step: "\<exists>k\<le>length (l # rest').
           invoked event (c # tr2 @ tr') = map callback (take k (l # rest')) \<and>
           slot_listeners event this' =
             Some (kept @ filter (\<lambda>l. \<not> once l) (take k (l # rest')) @ drop k (l # rest'))"
    if r: "rest = l # rest'" and s: "slot_listeners event this2 = Some (kept @ rest)"
      and c: "invoked event [c] = [callback l]" and t: "invoked event tr2 = []"
      and go: "emit_loop_r n rb event args ib cb (if once l then length kept else length kept + 1)
         (finally_r event l (length kept) this2) w2 = Some (r, this', w', tr')"
    for l rest' this2 w2 c tr2 tr'
  proof (cases "once l")
    case True
    with s r have "slot_listeners event (finally_r event l (length kept) this2) =
        Some (kept @ rest')"
      by (simp add: slot_listeners_finally_r splice_at_kept)
    from Suc.IH [OF go [unfolded if_P [OF True]] this] obtain k where
      "k \<le> length rest'" "invoked event tr' = map callback (take k rest')"
      "slot_listeners event this' =
         Some (kept @ filter (\<lambda>l. \<not> once l) (take k rest') @ drop k rest')"
      by blast
    with True invoked_first [OF c, of "tr2 @ tr'"] t show ?thesis
      by (intro exI [of _ "Suc k"]) (simp add: invoked_append)
  next
    case False
    with s r have fin: "slot_listeners event (finally_r event l (length kept) this2) =
        Some ((kept @ [l]) @ rest')"
      by (simp add: slot_listeners_finally_r)
    from go False have go': "emit_loop_r n rb event args ib cb (length (kept @ [l]))
         (finally_r event l (length kept) this2) w2 = Some (r, this', w', tr')"
      by simp
    from Suc.IH [OF go' fin] obtain k where
      "k \<le> length rest'" "invoked event tr' = map callback (take k rest')"
      "slot_listeners event this' =
         Some ((kept @ [l]) @ filter (\<lambda>l. \<not> once l) (take k rest') @ drop k rest')"
      by blast
    with False invoked_first [OF c, of "tr2 @ tr'"] t show ?thesis
      by (intro exI [of _ "Suc k"]) (simp add: invoked_append)
  qed
  have last: "\<exists>k\<le>length (l # rest').
           invoked event (c # tr2) = map callback (take k (l # rest')) \<and>
           slot_listeners event (finally_r event l (length kept) this2) =
             Some (kept @ filter (\<lambda>l. \<not> once l) (take k (l # rest')) @ drop k (l # rest'))"
    if r: "rest = l # rest'" and s: "slot_listeners event this2 = Some (kept @ rest)"
      and c: "invoked event [c] = [callback l]" and t: "invoked event tr2 = []"
    for l rest' this2 c tr2
    using that invoked_first [OF c, of tr2]
    by (intro exI [of _ "Suc 0"]) (simp add: slot_listeners_finally_r splice_at_kept)
  from Suc.prems(1) show ?case
  proof (cases rule: emit_loop_r_cases)
    case finished
    with len cur show ?thesis by (intro exI [of _ 0]) simp
  next
    case (interrupt l this1 w1)
    from interrupt(1,2) len obtain rest' where r: "rest = l # rest'"
      by (cases rest) (auto simp: nth_append)
    from last [OF r, of this1 "Invoke event (callback l) args (Returned (VBool False))" "[]"]
      keeps_listenersD [OF assms(1) interrupt(3)] cur interrupt r
    show ?thesis by simp
  next
    case (returned l ret this1 w1 tr')
    from returned(1,2) len obtain rest' where r: "rest = l # rest'"
      by (cases rest) (auto simp: nth_append)
    from step [OF r, of this1 "Invoke event (callback l) args (Returned ret)" "[]" w1 tr']
      keeps_listenersD [OF assms(1) returned(3)] cur returned r
    show ?thesis by simp
  next
    case (rethrow l e this1 w1)
    from rethrow(1,2) len obtain rest' where r: "rest = l # rest'"
      by (cases rest) (auto simp: nth_append)
    from last [OF r, of this1 "Invoke event (callback l) args (Thrown e)" "[]"]
      keeps_listenersD [OF assms(1) rethrow(3)] cur rethrow r
    show ?thesis by simp
  next
    case (error_throws l e this1 w1 e' this2 tr2)
    from error_throws(1,2) len obtain rest' where r: "rest = l # rest'"
      by (cases rest) (auto simp: nth_append)
    note n = emit_error_other [OF assms(1) error_throws(4,5)]
    from last [OF r, of this2 "Invoke event (callback l) args (Thrown e)" tr2] n
      keeps_listenersD [OF assms(1) error_throws(3)] cur error_throws r
    show ?thesis by simp
  next
    case (stop l e this1 w1 b this2 tr2)
    from stop(1,2) len obtain rest' where r: "rest = l # rest'"
      by (cases rest) (auto simp: nth_append)
    note n = emit_error_other [OF assms(1) stop(4,5)]
    from last [OF r, of this2 "Invoke event (callback l) args (Thrown e)" tr2] n
      keeps_listenersD [OF assms(1) stop(3)] cur stop r
    show ?thesis by simp
  next
    case (continue l e this1 w1 b this2 w2 tr2 tr')
    from continue(1,2) len obtain rest' where r: "rest = l # rest'"
      by (cases rest) (auto simp: nth_append)
    note n = emit_error_other [OF assms(1) continue(4,5)]
    from step [OF r, of this2 "Invoke event (callback l) args (Thrown e)" tr2 w2 tr'] n
      keeps_listenersD [OF assms(1) continue(3)] cur continue r
    show ?thesis by simp
  qed
qed


lemma emit_r_listeners:
  assumes "keeps_listeners rb event"
    and "emit_r n rb event args this w = Some (r, this', w', tr)"
    and "slot_listeners event this = Some ls"
  shows "\<exists>k\<le>length ls.
           invoked event tr = map callback (take k ls) \<and>
           slot_listeners event this' = Some (filter (\<lambda>l. \<not> once l) (take k ls) @ drop k ls)"
  using assms(2)
proof (cases rule: emit_r_cases)
  case idle
  with assms(3) show ?thesis by (intro exI [of _ 0]) simp
next
  case type_error
  with assms(3) show ?thesis by (intro exI [of _ 0]) simp
next
  case (dispatched m ev tr')
  from emit_loop_r_listeners [of rb event m args _ _ "[]", simplified,
      OF assms(1) dispatched(4) assms(3)] dispatched(5)
  show ?thesis by simp
qed

subsection \<open>Enough fuel\<close>

text \<open>
  Enough fuel. A round of the loop either moves the index or shortens the list, so the
  rounds of a dispatch of \<open>"error"\<close> are at most its listeners; a dispatch of another
  event needs in every round the fuel of a dispatch of \<open>"error"\<close>, whose list does not
  grow.
\<close>

lemma length_finally_r:
  assumes "slot_listeners event this = Some ls" and "i < length ls"
  shows "length (current_listeners event (finally_r event l i this)) -
           (if once l then i else i + 1) = length ls - Suc i"
  using assms
  by (auto simp: current_slot_listeners slot_listeners_finally_r splice_one)

lemma error_loop_returns:
  assumes "keeps_listeners rb ''error''"
    and "length (current_listeners ''error'' this) - i < n"
  shows "emit_loop_r n rb ''error'' args ib cb i this w \<noteq> None"
  using assms(2)
proof (induction n arbitrary: i this w)
  case 0
  then show ?case by simp
next
  case (Suc n)
  show ?case
  proof (cases "i < length (current_listeners ''error'' this)")
    case False
    then show ?thesis by (simp add: emit_loop_r.simps)
  next
    case True
    define l where "l = current_listeners ''error'' this ! i"
    obtain out this1 w1 where b: "rb (callback l) args this w = (out, this1, w1)"
      by (cases "rb (callback l) args this w")
    from True obtain ls where s: "slot_listeners ''error'' this = Some ls"
      and c: "current_listeners ''error'' this = ls"
      by (cases "slot_listeners ''error'' this") (auto simp: current_slot_listeners)
    from keeps_listenersD [OF assms(1) b] s have s1: "slot_listeners ''error'' this1 = Some ls"
      by simp
    from length_finally_r [OF s1, of i l] True c Suc.prems
    have "length (current_listeners ''error'' (finally_r ''error'' l i this1)) -
            (if once l then i else i + 1) < n" by simp
    from Suc.IH [OF this] have
      "emit_loop_r n rb ''error'' args ib cb (if once l then i else i + 1)
         (finally_r ''error'' l i this1) w1 \<noteq> None" .
    with True b show ?thesis
      by (cases out) (simp_all add: emit_loop_r.simps Let_def l_def del: not_None_eq)
  qed
qed

lemma emit_error_returns:
  assumes "keeps_listeners rb ''error''"
    and "Suc (length (current_listeners ''error'' this)) < n"
  shows "emit_r n rb ''error'' args this w \<noteq> None"
proof -
  from assms(2) obtain m where n: "n = Suc m" and
    m: "length (current_listeners ''error'' this) - 0 < m"
    by (cases n) auto
  from error_loop_returns [OF assms(1) m] show ?thesis
    unfolding n by (simp add: emit_r.simps del: not_None_eq split: option.splits)
qed

lemma emit_error_shrinks:
  assumes "keeps_listeners rb ''error''"
    and "emit_r n rb ''error'' args this w = Some (r, this', w', tr)"
  shows "length (current_listeners ''error'' this') \<le> length (current_listeners ''error'' this)"
proof (cases "slot_listeners ''error'' this")
  case None
  with assms(2) show ?thesis
    by (cases rule: emit_r_cases) (auto simp: slot_listeners_def)
next
  case (Some ls)
  from emit_r_listeners [OF assms Some] obtain k where k: "k \<le> length ls"
    and s: "slot_listeners ''error'' this' =
      Some (filter (\<lambda>l. \<not> once l) (take k ls) @ drop k ls)" by blast
  have "length (filter (\<lambda>l. \<not> once l) (take k ls)) \<le> k"
    using length_filter_le [of "\<lambda>l. \<not> once l" "take k ls"] k by simp
  with k s Some show ?thesis by (simp add: current_slot_listeners)
qed

lemma emit_loop_r_returns:
  assumes "keeps_listeners rb event" and "keeps_listeners rb ''error''"
    and "event \<noteq> ''error''"
    and "length (current_listeners event this) - i +
           length (current_listeners ''error'' this) + 1 < n"
  shows "emit_loop_r n rb event args ib cb i this w \<noteq> None"
  using assms(4)
proof (induction n arbitrary: i this w)
  case 0
  then show ?case by simp
next
  case (Suc n)
  show ?case
  proof (cases "i < length (current_listeners event this)")
    case False
    then show ?thesis by (simp add: emit_loop_r.simps)
  next
    case True
    define l where "l = current_listeners event this ! i"
    obtain out this1 w1 where b: "rb (callback l) args this w = (out, this1, w1)"
      by (cases "rb (callback l) args this w")
    from True obtain ls where s: "slot_listeners event this = Some ls"
      and c: "current_listeners event this = ls"
      by (cases "slot_listeners event this") (auto simp: current_slot_listeners)
    from keeps_listenersD [OF assms(1) b] s have s1: "slot_listeners event this1 = Some ls"
      by simp
    from keeps_listenersD [OF assms(2) b]
    have e1: "current_listeners ''error'' this1 = current_listeners ''error'' this"
      by (simp add: current_slot_listeners)
    have nxt: "emit_loop_r n rb event args ib cb (if once l then i else i + 1)
         (finally_r event l i this2) w2 \<noteq> None"
      if "slot_listeners event this2 = Some ls"
        and "length (current_listeners ''error'' this2) \<le> length (current_listeners ''error'' this1)"
      for this2 w2
    proof -
      have "current_listeners ''error'' (finally_r event l i this2) =
          current_listeners ''error'' this2"
        using assms(3) by (simp add: current_slot_listeners slot_listeners_finally_r)
      with length_finally_r [OF that(1), of i l] that(2) True c e1 Suc.prems
      have "length (current_listeners event (finally_r event l i this2)) -
              (if once l then i else i + 1) +
            length (current_listeners ''error'' (finally_r event l i this2)) + 1 < n"
        by simp
      then show ?thesis by (rule Suc.IH)
    qed
    show ?thesis
    proof (cases out)
      case (Returned ret)
      with True b nxt [OF s1 le_refl, of w1] show ?thesis
        by (simp add: emit_loop_r.simps Let_def l_def del: not_None_eq)
    next
      case (Thrown e)
      from True c e1 Suc.prems have "Suc (length (current_listeners ''error'' this1)) < n"
        by simp
      from emit_error_returns [OF assms(2) this, of "[e]" w1] obtain r2 this2 w2 tr2 where
        n: "emit_r n rb ''error'' [e] this1 w1 = Some (r2, this2, w2, tr2)"
        by (cases "emit_r n rb ''error'' [e] this1 w1") auto
      from emit_error_other [OF assms(1,3) n] s1
      have s2: "slot_listeners event this2 = Some ls" by simp
      note nxt [OF s2 emit_error_shrinks [OF assms(2) n], of w2]
      with True b Thrown n assms(3) show ?thesis
        by (cases r2; cases cb; cases "once (current_listeners event this ! i)")
           (simp_all add: emit_loop_r.simps Let_def l_def del: not_None_eq)
    qed
  qed
qed

lemma emit_r_returns:
  assumes "keeps_listeners rb event" and "keeps_listeners rb ''error''"
    and "length (current_listeners event this) +
           length (current_listeners ''error'' this) + 2 < n"
  shows "emit_r n rb event args this w \<noteq> None"
proof (cases "event = ''error''")
  case True
  with assms(3) emit_error_returns [OF assms(2), of this n args w] show ?thesis by simp
next
  case False
  from assms(3) obtain m where n: "n = Suc m" and
    m: "length (current_listeners event this) - 0 +
          length (current_listeners ''error'' this) + 1 < m"
    by (cases n) auto
  from emit_loop_r_returns [OF assms(1,2) False m] show ?thesis
    unfolding n by (simp add: emit_r.simps del: not_None_eq split: option.splits)
qed


subsection \<open>What emit changes and returns\<close>

text \<open>
  What every invocation of a listener preserves, and the \<open>finally\<close> block preserves,
  holds after \<open>emit\<close>.
\<close>

lemma emit_r_invariant_gen:
  assumes step: "\<And>cb a th v. I th \<Longrightarrow> I (fst (snd (rb cb a th v)))"
    and fin: "\<And>e l i th. I th \<Longrightarrow> I (finally_r e l i th)"
  shows "(emit_r n rb event args this w = Some (r, this', w', tr) \<longrightarrow> I this \<longrightarrow> I this') \<and>
         (emit_loop_r n rb event args ib cb i this w = Some (r, this', w', tr) \<longrightarrow>
            I this \<longrightarrow> I this')"
proof (induction n arbitrary: event args ib cb i this w r this' w' tr)
  case 0
  show ?case by (simp add: emit_r.simps emit_loop_r.simps)
next
  case (Suc n)
  have 1: "I this'"
    if e: "emit_r (Suc n) rb event args this w = Some (r, this', w', tr)" and i: "I this"
    using e
  proof (cases rule: emit_r_cases)
    case idle
    from i show ?thesis unfolding idle(3) .
  next
    case type_error
    from i show ?thesis unfolding type_error(4) .
  next
    case (dispatched m ev tr')
    from dispatched(1) have m: "m = n" by simp
    from Suc.IH [THEN conjunct2, rule_format, OF dispatched(4) [unfolded m] i]
    show ?thesis .
  qed
  have 2: "I this'"
    if e: "emit_loop_r (Suc n) rb event args ib cb i this w = Some (r, this', w', tr)"
      and i: "I this"
    using e
  proof (cases rule: emit_loop_r_cases)
    case finished
    from i show ?thesis unfolding finished(3) .
  next
    case (interrupt l this1 w1)
    from step [OF i, of "callback l" args w] have "I this1" unfolding interrupt(3) by simp
    then show ?thesis unfolding interrupt(6) by (rule fin)
  next
    case (returned l ret this1 w1 tr')
    from step [OF i, of "callback l" args w] have "I this1" unfolding returned(3) by simp
    from Suc.IH [THEN conjunct2, rule_format, OF returned(5) fin [OF this]]
    show ?thesis .
  next
    case (rethrow l e this1 w1)
    from step [OF i, of "callback l" args w] have "I this1" unfolding rethrow(3) by simp
    then show ?thesis unfolding rethrow(6) by (rule fin)
  next
    case (error_throws l e this1 w1 e' this2 tr2)
    from step [OF i, of "callback l" args w] have "I this1" unfolding error_throws(3) by simp
    from Suc.IH [THEN conjunct1, rule_format, OF error_throws(5) this] have "I this2" .
    then show ?thesis unfolding error_throws(7) by (rule fin)
  next
    case (stop l e this1 w1 b this2 tr2)
    from step [OF i, of "callback l" args w] have "I this1" unfolding stop(3) by simp
    from Suc.IH [THEN conjunct1, rule_format, OF stop(5) this] have "I this2" .
    then show ?thesis unfolding stop(8) by (rule fin)
  next
    case (continue l e this1 w1 b this2 w2 tr2 tr')
    from step [OF i, of "callback l" args w] have "I this1" unfolding continue(3) by simp
    from Suc.IH [THEN conjunct1, rule_format, OF continue(5) this] have "I this2" .
    from Suc.IH [THEN conjunct2, rule_format, OF continue(7) fin [OF this]]
    show ?thesis .
  qed
  from 1 2 show ?case by blast
qed

lemma emit_r_invariant:
  assumes "\<And>cb a th v. I th \<Longrightarrow> I (fst (snd (rb cb a th v)))"
    and "\<And>e l i th. I th \<Longrightarrow> I (finally_r e l i th)"
    and "emit_r n rb event args this w = Some (r, this', w', tr)" and "I this"
  shows "I this'"
  using emit_r_invariant_gen [of I rb n event args this w r this' w' tr, OF assms(1,2)]
    assms(3,4) by blast

text \<open>
  What \<open>emit\<close> returns when its listeners may call the emitter: the loop returns \<open>true\<close>,
  and no listener of \<open>"error"\<close> has thrown, or it throws what a listener of \<open>"error"\<close>
  threw in the last entry of the log.
\<close>

lemma emit_r_result_gen:
  "(emit_r n rb ''error'' args this w = Some (r, this', w', tr) \<longrightarrow>
      ((\<exists>b. r = Inr b) \<and> (\<forall>cb a e. Invoke ''error'' cb a (Thrown e) \<notin> set tr)) \<or>
      (\<exists>e cb a. r = Inl e \<and> tr \<noteq> [] \<and> last tr = Invoke ''error'' cb a (Thrown e))) \<and>
   (emit_loop_r n rb event args ib cb i this w = Some (r, this', w', tr) \<longrightarrow>
      (r = Inr True \<and> (\<forall>cb a e. Invoke ''error'' cb a (Thrown e) \<notin> set tr)) \<or>
      (\<exists>e cb a. r = Inl e \<and> tr \<noteq> [] \<and> last tr = Invoke ''error'' cb a (Thrown e)))"
proof (induction n arbitrary: event args ib cb i this w r this' w' tr)
  case 0
  show ?case by (simp add: emit_r.simps emit_loop_r.simps)
next
  case (Suc n)
  have 1: "((\<exists>b. r = Inr b) \<and> (\<forall>cb a e. Invoke ''error'' cb a (Thrown e) \<notin> set tr)) \<or>
      (\<exists>e cb a. r = Inl e \<and> tr \<noteq> [] \<and> last tr = Invoke ''error'' cb a (Thrown e))"
    if e: "emit_r (Suc n) rb ''error'' args this w = Some (r, this', w', tr)"
    using e
  proof (cases rule: emit_r_cases)
    case idle
    then show ?thesis by auto
  next
    case type_error
    then show ?thesis by simp
  next
    case (dispatched m ev tr')
    from dispatched(1) have m: "m = n" by simp
    from Suc.IH [THEN conjunct2, rule_format, OF dispatched(4) [unfolded m]] dispatched(5)
    show ?thesis by auto
  qed
  have 2: "(r = Inr True \<and> (\<forall>cb a e. Invoke ''error'' cb a (Thrown e) \<notin> set tr)) \<or>
      (\<exists>e cb a. r = Inl e \<and> tr \<noteq> [] \<and> last tr = Invoke ''error'' cb a (Thrown e))"
    if e: "emit_loop_r (Suc n) rb event args ib cb i this w = Some (r, this', w', tr)"
    using e
  proof (cases rule: emit_loop_r_cases)
    case finished
    then show ?thesis by simp
  next
    case (interrupt l this1 w1)
    then show ?thesis by simp
  next
    case (returned l ret this1 w1 tr')
    from Suc.IH [THEN conjunct2, rule_format, OF returned(5)] returned(6)
    show ?thesis by auto
  next
    case (rethrow l e this1 w1)
    then show ?thesis by simp
  next
    case (error_throws l e this1 w1 e' this2 tr2)
    from Suc.IH [THEN conjunct1, rule_format, OF error_throws(5)] error_throws(6,8)
    show ?thesis by auto
  next
    case (stop l e this1 w1 b this2 tr2)
    from Suc.IH [THEN conjunct1, rule_format, OF stop(5)] stop(4,7,9)
    show ?thesis by auto
  next
    case (continue l e this1 w1 b this2 w2 tr2 tr')
    from Suc.IH [THEN conjunct1, rule_format, OF continue(5)]
    have n: "\<forall>cb a e. Invoke ''error'' cb a (Thrown e) \<notin> set tr2" by auto
    from Suc.IH [THEN conjunct2, rule_format, OF continue(7)] show ?thesis
    proof (elim disjE conjE exE)
      assume "r = Inr True" "\<forall>cb a e. Invoke ''error'' cb a (Thrown e) \<notin> set tr'"
      with n continue(4,8) show ?thesis by auto
    next
      fix e' cb' a'
      assume "r = Inl e'" "tr' \<noteq> []" "last tr' = Invoke ''error'' cb' a' (Thrown e')"
      with continue(8) show ?thesis by auto
    qed
  qed
  from 1 2 show ?case by blast
qed

lemma emit_r_result:
  assumes "emit_r n rb event args this w = Some (r, this', w', tr)"
    and "map_of (P_EVENT_SLOTS this) event = Some ev" and "listeners ev \<noteq> []"
  shows "(r = Inr True \<and> (\<forall>cb a e. Invoke ''error'' cb a (Thrown e) \<notin> set tr)) \<or>
         (\<exists>e cb a. r = Inl e \<and> last tr = Invoke ''error'' cb a (Thrown e))"
  using assms(1)
proof (cases rule: emit_r_cases)
  case idle
  with assms(2,3) show ?thesis by auto
next
  case type_error
  with assms(2) show ?thesis by auto
next
  case (dispatched m ev' tr')
  from emit_r_result_gen [THEN conjunct2, rule_format, OF dispatched(4)] dispatched(5)
  show ?thesis by auto
qed

subsection \<open>Quiet listeners\<close>

text \<open>
  Quiet listeners: \<open>emit\<close> is \<open>emit_r\<close>, given the fuel of one unit per listener of the
  event and of \<open>"error"\<close> and three more.
\<close>

lemma keeps_listeners_quietly: "keeps_listeners (quietly beh) event"
  by (simp add: keeps_listeners_def quietly_def split: prod.splits)

lemma quietly_eq:
  "quietly beh cb args this w = (out, this1, w1) \<longleftrightarrow>
     beh cb args this w = (out, w1) \<and> this1 = this"
  by (auto simp: quietly_def split: prod.splits)

lemma finally_r_m:
  "slot_listeners event this = Some ls \<Longrightarrow>
   finally_r event l i this = finally_m event l i ls this"
  by (simp add: finally_r_def finally_m_def current_slot_listeners)

lemma slot_listeners_finally_m:
  "slot_listeners event this = Some ls0 \<Longrightarrow>
   slot_listeners event (finally_m event l i ls this) =
     Some (if once l then snd (splice (int i) (Some 1) ls) else ls0)"
  by (simp add: finally_m_def slot_listeners_set_listeners)

lemma emit_r_quietly_gen:
  "(emit_r n (quietly beh) event args this w = Some X \<longrightarrow>
      X = emit beh event args this w) \<and>
   (emit_loop_r n (quietly beh) event args ib cb i this w = Some X \<longrightarrow>
      slot_listeners event this = Some ls \<longrightarrow>
      X = emit_loop beh event args ib cb i ls this w)"
proof (induction n arbitrary: event args ib cb i this w X ls)
  case 0
  show ?case by (simp add: emit_r.simps emit_loop_r.simps)
next
  case (Suc n)
  note K = keeps_listeners_quietly [of beh]
  have 1: "X = emit beh event args this w"
    if e: "emit_r (Suc n) (quietly beh) event args this w = Some X"
  proof -
    obtain r this' w' tr where X: "X = (r, this', w', tr)" by (cases X)
    from e [unfolded X] show ?thesis
    proof (cases rule: emit_r_cases)
      case idle
      with X show ?thesis by (subst emit.simps) auto
    next
      case type_error
      with X show ?thesis by (subst emit.simps) auto
    next
      case (dispatched m ev tr')
      then have s: "slot_listeners event this = Some (listeners ev)"
        by (simp add: slot_listeners_def)
      from dispatched(1) have m: "m = n" by simp
      from Suc.IH [THEN conjunct2, rule_format, OF dispatched(4) [unfolded m] s]
        dispatched(2,3,5) X
      show ?thesis by (subst emit.simps) (auto simp: logged_def split: prod.splits)
    qed
  qed
  have 2: "X = emit_loop beh event args ib cb i ls this w"
    if e: "emit_loop_r (Suc n) (quietly beh) event args ib cb i this w = Some X"
      and s: "slot_listeners event this = Some ls"
  proof -
    obtain r this' w' tr where X: "X = (r, this', w', tr)" by (cases X)
    from s have c: "current_listeners event this = ls" by (simp add: current_slot_listeners)
    note fin = finally_r_m [OF s]
    define ls' where "ls' = (\<lambda>l. if once l then snd (splice (int i) (Some 1) ls) else ls)"
    from e [unfolded X] show ?thesis
    proof (cases rule: emit_loop_r_cases)
      case finished
      with X c show ?thesis by (subst emit_loop.simps) simp
    next
      case (interrupt l this1 w1)
      with X c fin show ?thesis
        by (subst emit_loop.simps) (simp add: quietly_eq Let_def)
    next
      case (returned l ret this1 w1 tr')
      from returned(3) have b: "beh (callback l) args this w = (Returned ret, w1)"
        and t1: "this1 = this" by (simp_all add: quietly_eq)
      from Suc.IH [THEN conjunct2, rule_format, OF returned(5) [unfolded t1 fin]
          slot_listeners_finally_m [OF s]]
      have "(r, this', w', tr') =
          emit_loop beh event args ib cb (if once l then i else i + 1)
            (if once l then snd (splice (int i) (Some 1) ls) else ls)
            (finally_m event l i ls this) w1" .
      with returned(1,2,4,6) b X c show ?thesis
        by (subst emit_loop.simps) (auto simp: Let_def logged_def split: prod.splits)
    next
      case (rethrow l e this1 w1)
      with X c fin show ?thesis
        by (subst emit_loop.simps) (simp add: quietly_eq Let_def)
    next
      case (error_throws l e this1 w1 e' this2 tr2)
      from error_throws(3) have b: "beh (callback l) args this w = (Thrown e, w1)"
        and t1: "this1 = this" by (simp_all add: quietly_eq)
      from Suc.IH [THEN conjunct1, rule_format, OF error_throws(5) [unfolded t1]]
      have n: "emit beh ''error'' [e] this w1 = (Inl e', this2, w', tr2)" by simp
      from emit_error_other [OF K error_throws(4,5)] s t1
      have "slot_listeners event this2 = Some ls" by simp
      note fin2 = finally_r_m [OF this]
      from error_throws(1,2,4,6,7,8) b n X c fin2 show ?thesis
        by (subst emit_loop.simps) (simp add: Let_def)
    next
      case (stop l e this1 w1 b' this2 tr2)
      from stop(3) have b: "beh (callback l) args this w = (Thrown e, w1)"
        and t1: "this1 = this" by (simp_all add: quietly_eq)
      from Suc.IH [THEN conjunct1, rule_format, OF stop(5) [unfolded t1]]
      have n: "emit beh ''error'' [e] this w1 = (Inr b', this2, w', tr2)" by simp
      from emit_error_other [OF K stop(4,5)] s t1
      have "slot_listeners event this2 = Some ls" by simp
      note fin2 = finally_r_m [OF this]
      from stop(1,2,4,6,7,8,9) b n X c fin2 show ?thesis
        by (subst emit_loop.simps) (simp add: Let_def)
    next
      case (continue l e this1 w1 b' this2 w2 tr2 tr')
      from continue(3) have b: "beh (callback l) args this w = (Thrown e, w1)"
        and t1: "this1 = this" by (simp_all add: quietly_eq)
      from Suc.IH [THEN conjunct1, rule_format, OF continue(5) [unfolded t1]]
      have n: "emit beh ''error'' [e] this w1 = (Inr b', this2, w2, tr2)" by simp
      from emit_error_other [OF K continue(4,5)] s t1
      have s2: "slot_listeners event this2 = Some ls" by simp
      note fin2 = finally_r_m [OF s2]
      from Suc.IH [THEN conjunct2, rule_format, OF continue(7) [unfolded fin2]
          slot_listeners_finally_m [OF s2]]
      have "(r, this', w', tr') =
          emit_loop beh event args ib cb (if once l then i else i + 1)
            (if once l then snd (splice (int i) (Some 1) ls) else ls)
            (finally_m event l i ls this2) w2" .
      with continue(1,2,4,6,8) b n X c show ?thesis
        by (subst emit_loop.simps) (auto simp: Let_def logged_def split: prod.splits)
    qed
  qed
  from 1 2 show ?case by blast
qed

lemma emit_r_quietly:
  assumes "length (current_listeners event this) +
             length (current_listeners ''error'' this) + 2 < n"
  shows "emit_r n (quietly beh) event args this w = Some (emit beh event args this w)"
proof -
  from emit_r_returns [OF keeps_listeners_quietly [of beh] keeps_listeners_quietly [of beh]
      assms, of args w]
  obtain X where "emit_r n (quietly beh) event args this w = Some X" by blast
  with emit_r_quietly_gen [THEN conjunct1, rule_format, OF this] show ?thesis by simp
qed

subsection \<open>Once-listeners\<close>





section \<open>Properties of the limit and of the configuration\<close>

lemma bounded_iff:
  "bounded this \<longleftrightarrow>
     (\<forall>n ev. map_of (P_EVENT_SLOTS this) n = Some ev \<longrightarrow>
        limit_ok (length (listeners ev)) (maxListeners (config ev)))"
proof
  assume b: "bounded this"
  show "\<forall>n ev. map_of (P_EVENT_SLOTS this) n = Some ev \<longrightarrow>
        limit_ok (length (listeners ev)) (maxListeners (config ev))"
  proof (intro allI impI)
    fix n ev assume s: "map_of (P_EVENT_SLOTS this) n = Some ev"
    then have "n \<in> set (eventNames this)"
      by (auto simp: eventNames_def dest: map_of_SomeD intro: rev_image_eqI)
    with b s show "limit_ok (length (listeners ev)) (maxListeners (config ev))"
      by (auto simp: bounded_def list_all_iff)
  qed
next
  assume "\<forall>n ev. map_of (P_EVENT_SLOTS this) n = Some ev \<longrightarrow>
        limit_ok (length (listeners ev)) (maxListeners (config ev))"
  then show "bounded this"
    by (auto simp: bounded_def list_all_iff split: option.splits)
qed

lemma limit_ok_mono: "limit_ok n m \<Longrightarrow> k \<le> n \<Longrightarrow> limit_ok k m"
  by (auto simp: limit_ok_def length_within_def split: option.splits number.splits)

lemma limit_ok_Suc:
  assumes "limit_ok n m" and "m \<noteq> Some (Num (of_nat n))"
  shows "limit_ok (Suc n) m"
proof (cases m)
  case None
  with assms show ?thesis by (simp add: limit_ok_def length_within_def)
next
  case (Some x)
  show ?thesis
  proof (cases x)
    case (Num q)
    with Some assms have w: "of_int \<lfloor>q\<rfloor> = q" and le: "of_nat n \<le> q" and ne: "q \<noteq> of_nat n"
      by (auto simp: limit_ok_def length_within_def whole_limit_def)
    from le w have "int n \<le> \<lfloor>q\<rfloor>" by (simp add: le_floor_iff)
    moreover from ne w have "\<lfloor>q\<rfloor> \<noteq> int n" by auto
    ultimately have "int (Suc n) \<le> \<lfloor>q\<rfloor>" by simp
    then have "of_nat (Suc n) \<le> q" by (simp add: le_floor_iff)
    with w Some Num show ?thesis by (simp add: limit_ok_def length_within_def whole_limit_def)
  qed (use Some assms in \<open>auto simp: limit_ok_def length_within_def whole_limit_def\<close>)
qed

lemma limit_ok_slot_or_new:
  assumes "within_limits this"
  shows "limit_ok (length (listeners (slot_or_new event this)))
           (maxListeners (config (slot_or_new event this)))"
  using assms
  by (auto simp: within_limits_def bounded_iff slot_or_new_def new_EventInfo_def
        split: option.splits)

text \<open>What a registration does, for on (flag False) and once (flag True).\<close>

lemma registration_inherited:
  assumes "map_of (P_EVENT_SLOTS this) event = None" and "inherited this event"
  shows "on event cb this = (Inl TypeError, this)"
    and "once_m event cb this = (Inl TypeError, this)"
  using assms by (simp_all add: on_def once_m_def)

lemma registration:
  assumes r: "reg = (if flag then once_m event cb this else on event cb this)"
    and own: "map_of (P_EVENT_SLOTS this) event \<noteq> None \<or> \<not> inherited this event"
  shows "P_CONFIG (snd reg) = P_CONFIG this"
    and "n \<noteq> event \<Longrightarrow> map_of (P_EVENT_SLOTS (snd reg)) n = map_of (P_EVENT_SLOTS this) n"
    and "maxListeners (config (slot_or_new event this)) =
           Some (Num (of_nat (length (listeners (slot_or_new event this))))) \<Longrightarrow>
           fst reg = Inl E_EXCEED_MAX_LISTENERS \<and>
           map_of (P_EVENT_SLOTS (snd reg)) event = Some (slot_or_new event this)"
    and "maxListeners (config (slot_or_new event this)) \<noteq>
           Some (Num (of_nat (length (listeners (slot_or_new event this))))) \<Longrightarrow>
           fst reg = Inr () \<and>
           map_of (P_EVENT_SLOTS (snd reg)) event =
             Some ((slot_or_new event this)
                     \<lparr> listeners := listeners (slot_or_new event this) @ [new_ListenerInfo cb flag] \<rparr>)"
    and "inherited (snd reg) n = inherited this n"
  using own unfolding r
  by (auto simp: on_def once_m_def slot_or_new_def Let_def slot_set_slot slot_set_listeners
        config_set_slot config_set_listeners split: option.splits)

lemma registration_within_limits:
  assumes "within_limits this"
    and r: "reg = (if flag then once_m event cb this else on event cb this)"
  shows "within_limits (snd reg)"
proof (cases "map_of (P_EVENT_SLOTS this) event = None \<and> inherited this event")
  case True
  with assms show ?thesis by (simp add: registration_inherited)
next
  case own: False
  then have own': "map_of (P_EVENT_SLOTS this) event \<noteq> None \<or> \<not> inherited this event" by auto
  let ?ev = "slot_or_new event this"
  note f = registration [OF r own']
  have b: "\<And>n ev. map_of (P_EVENT_SLOTS this) n = Some ev \<Longrightarrow>
              limit_ok (length (listeners ev)) (maxListeners (config ev))"
    using assms(1) by (simp add: within_limits_def bounded_iff)
  have g: "limit_ok 0 (maxListeners (P_CONFIG this))"
    using assms(1) by (simp add: within_limits_def)
  note e = limit_ok_slot_or_new [OF assms(1), of event]
  have "limit_ok (length (listeners ev')) (maxListeners (config ev'))"
    if s: "map_of (P_EVENT_SLOTS (snd reg)) n = Some ev'" for n ev'
  proof (cases "n = event")
    case False
    with s f(2) b show ?thesis by simp
  next
    case True
    show ?thesis
    proof (cases "maxListeners (config ?ev) = Some (Num (of_nat (length (listeners ?ev))))")
      case eq: True
      with f(3) s True e show ?thesis by auto
    next
      case ne: False
      with f(4) s True have "ev' = ?ev\<lparr> listeners := listeners ?ev @ [new_ListenerInfo cb flag] \<rparr>"
        by auto
      with limit_ok_Suc [OF e ne] show ?thesis by simp
    qed
  qed
  with f(1) g show ?thesis by (simp add: within_limits_def bounded_iff)
qed

lemma off_slot:
  assumes "map_of (P_EVENT_SLOTS this) event = Some ev"
  shows "snd (off event cbo this) = set_listeners event [] this"
  using assms by (cases cbo) (simp_all add: off_with_callback off_without_callback)

lemma off_no_slot:
  assumes "map_of (P_EVENT_SLOTS this) event = None"
  shows "snd (off event cbo this) = this"
  using assms by (simp add: off_def)

lemma off_within_limits:
  assumes "within_limits this"
  shows "within_limits (snd (off event cbo this))"
proof (cases "map_of (P_EVENT_SLOTS this) event")
  case None
  with assms show ?thesis by (simp add: off_no_slot)
next
  case (Some ev)
  note o = off_slot [OF Some, of cbo]
  have b: "\<And>n ev. map_of (P_EVENT_SLOTS this) n = Some ev \<Longrightarrow>
              limit_ok (length (listeners ev)) (maxListeners (config ev))"
    using assms(1) by (simp add: within_limits_def bounded_iff)
  have "limit_ok 0 (maxListeners (config ev))" using limit_ok_mono [OF b [OF Some]] by simp
  with b Some have "limit_ok (length (listeners ev')) (maxListeners (config ev'))"
    if "map_of (P_EVENT_SLOTS (set_listeners event [] this)) n = Some ev'" for n ev'
    using that by (auto simp: slot_set_listeners split: if_splits)
  with assms o show ?thesis
    by (simp add: within_limits_def bounded_iff config_set_listeners)
qed

lemma emit_within_limits:
  assumes "within_limits this" and "emit beh event args this w = (r, this', w', tr)"
  shows "within_limits this'"
proof -
  note f = emit_frame [OF assms(2), unfolded frame_def]
  have b: "\<And>n ev. map_of (P_EVENT_SLOTS this) n = Some ev \<Longrightarrow>
              limit_ok (length (listeners ev)) (maxListeners (config ev))"
    using assms(1) by (simp add: within_limits_def bounded_iff)
  have "case map_of (P_EVENT_SLOTS this') n of None \<Rightarrow> True
        | Some ev \<Rightarrow> limit_ok (length (listeners ev)) (maxListeners (config ev))"
    if "n \<in> set (eventNames this)" for n
  proof -
    from that obtain ev where s: "map_of (P_EVENT_SLOTS this) n = Some ev"
      by (auto simp: eventNames_def weak_map_of_SomeI dest!: weak_map_of_SomeI)
    with f obtain ls where "map_of (P_EVENT_SLOTS this') n = Some (ev\<lparr> listeners := ls \<rparr>)"
      "length ls \<le> length (listeners ev)" by blast
    with limit_ok_mono [OF b [OF s]] show ?thesis by simp
  qed
  with f assms(1) show ?thesis by (simp add: within_limits_def bounded_def list_all_iff)
qed

lemma configEvent_within_limits:
  assumes "within_limits this"
  shows "limit_ok 0 (maxListeners (spread (P_CONFIG this) p)) \<Longrightarrow>
           within_limits (configEvent (Global p) this)"
    and "limit_ok (length (listeners (slot_or_new event this)))
           (maxListeners (spread (config (slot_or_new event this)) p)) \<Longrightarrow>
           within_limits (configEvent (ForEvent event p) this)"
proof -
  have b: "\<And>n ev. map_of (P_EVENT_SLOTS this) n = Some ev \<Longrightarrow>
              limit_ok (length (listeners ev)) (maxListeners (config ev))"
    using assms(1) by (simp add: within_limits_def bounded_iff)
  have g: "limit_ok 0 (maxListeners (P_CONFIG this))"
    using assms(1) by (simp add: within_limits_def)
  show "within_limits (configEvent (Global p) this)"
    if "limit_ok 0 (maxListeners (spread (P_CONFIG this) p))"
    using that b by (auto simp: within_limits_def bounded_iff)
  show "within_limits (configEvent (ForEvent event p) this)"
    if c: "limit_ok (length (listeners (slot_or_new event this)))
           (maxListeners (spread (config (slot_or_new event this)) p))"
  proof (cases "map_of (P_EVENT_SLOTS this) event")
    case None
    with c b g show ?thesis
      by (auto simp: within_limits_def bounded_iff slot_set_slot config_set_slot
            slot_or_new_def new_EventInfo_def split: if_splits)
  next
    case (Some ev)
    with c b g show ?thesis
      by (auto simp: within_limits_def bounded_iff slot_set_slot config_set_slot
            slot_or_new_def split: if_splits)
  qed
qed

lemma count_slot_or_new:
  "map_of (P_EVENT_SLOTS this) event \<noteq> None \<or> \<not> inherited this event \<Longrightarrow>
   listenerCount event this = Inr (length (listeners (slot_or_new event this)))"
  by (auto simp: listenerCount_def slot_or_new_def new_EventInfo_def split: option.splits)

lemma listeners_slot_or_new:
  "map_of (P_EVENT_SLOTS this) event \<noteq> None \<or> \<not> inherited this event \<Longrightarrow>
   listeners_m event this = Inr (map callback (listeners (slot_or_new event this)))"
  by (auto simp: listeners_m_def slot_or_new_def new_EventInfo_def split: option.splits)

lemma listeners_m_slot:
  "map_of (P_EVENT_SLOTS this) event = Some ev \<Longrightarrow>
   listeners_m event this = Inr (map callback (listeners ev))"
  by (simp add: listeners_m_def)

lemma registration_appends_or_fails:
  assumes r: "reg = (if flag then once_m event cb this else on event cb this)"
    and own: "map_of (P_EVENT_SLOTS this) event \<noteq> None \<or> \<not> inherited this event"
  shows "(fst reg = Inl E_EXCEED_MAX_LISTENERS \<and>
            maxListeners (config (slot_or_new event this)) =
              Some (Num (of_nat (length (listeners (slot_or_new event this))))) \<and>
            (\<forall>n. listeners_m n (snd reg) = listeners_m n this)) \<or>
         (fst reg = Inr () \<and>
            maxListeners (config (slot_or_new event this)) \<noteq>
              Some (Num (of_nat (length (listeners (slot_or_new event this))))) \<and>
            listeners_m event (snd reg) =
              Inr (map callback (listeners (slot_or_new event this)) @ [cb]) \<and>
            (\<forall>n. n \<noteq> event \<longrightarrow> listeners_m n (snd reg) = listeners_m n this))"
proof -
  let ?ev = "slot_or_new event this"
  note f = registration [OF r own]
  have other: "listeners_m n (snd reg) = listeners_m n this" if "n \<noteq> event" for n
    using f(2) [OF that] f(5) [of n] by (simp add: listeners_m_def)
  show ?thesis
  proof (cases "maxListeners (config ?ev) = Some (Num (of_nat (length (listeners ?ev))))")
    case True
    from f(3) [OF True] have "listeners_m event (snd reg) = listeners_m event this"
      by (simp add: listeners_m_slot listeners_slot_or_new [OF own])
    with other have "\<forall>n. listeners_m n (snd reg) = listeners_m n this"
      by (metis (full_types))
    with f(3) [OF True] True show ?thesis by simp
  next
    case False
    from f(4) [OF False] have "listeners_m event (snd reg) =
        Inr (map callback (listeners ?ev) @ [cb])"
      by (simp add: listeners_m_slot new_ListenerInfo_def)
    with f(4) [OF False] False other show ?thesis by auto
  qed
qed


text \<open>
  With listeners that call the emitter, \<open>emit\<close> keeps what every invocation of a
  listener keeps: the limits, and the configuration of a record.
\<close>

lemma map_entry_absent: "map_of xs k = None \<Longrightarrow> AList.map_entry k f xs = xs"
  by (induction xs) (auto split: if_splits)

lemma within_limits_finally_r:
  assumes "within_limits this"
  shows "within_limits (finally_r e l i this)"
proof (cases "once l")
  case False
  with assms show ?thesis by (simp add: finally_r_def)
next
  case o: True
  show ?thesis
  proof (cases "map_of (P_EVENT_SLOTS this) e")
    case None
    with assms show ?thesis
      by (simp add: finally_r_def set_listeners_def map_entry_absent)
  next
    case (Some ev)
    define ls where "ls = snd (splice (int i) (Some 1) (listeners ev))"
    have f: "finally_r e l i this = set_listeners e ls this"
      using o Some by (simp add: finally_r_def current_listeners_def ls_def)
    have b: "\<And>n ev. map_of (P_EVENT_SLOTS this) n = Some ev \<Longrightarrow>
                limit_ok (length (listeners ev)) (maxListeners (config ev))"
      using assms by (simp add: within_limits_def bounded_iff)
    have le: "length ls \<le> length (listeners ev)"
      by (simp add: ls_def splice_def Let_def)
    have "limit_ok (length (listeners ev')) (maxListeners (config ev'))"
      if s: "map_of (P_EVENT_SLOTS (set_listeners e ls this)) n = Some ev'" for n ev'
    proof (cases "n = e")
      case True
      with s Some have "ev' = ev\<lparr> listeners := ls \<rparr>" by (simp add: slot_set_listeners)
      with limit_ok_mono [OF b [OF Some] le] show ?thesis by simp
    next
      case False
      with s have "map_of (P_EVENT_SLOTS this) n = Some ev'" by (simp add: slot_set_listeners)
      then show ?thesis by (rule b)
    qed
    with assms show ?thesis
      unfolding f by (simp add: within_limits_def bounded_iff config_set_listeners)
  qed
qed

lemma emit_r_within_limits:
  assumes "\<And>cb a th v. within_limits th \<Longrightarrow> within_limits (fst (snd (rb cb a th v)))"
    and "within_limits this"
    and "emit_r n rb event args this w = Some (r, this', w', tr)"
  shows "within_limits this'"
  using emit_r_invariant [of within_limits rb, OF assms(1) within_limits_finally_r assms(3,2)] .

lemma emit_r_keeps_config:
  assumes "\<And>cb a th v. map_option config (map_of (P_EVENT_SLOTS (fst (snd (rb cb a th v)))) n) =
             map_option config (map_of (P_EVENT_SLOTS th) n)"
    and "emit_r k rb event args this w = Some (r, this', w', tr)"
  shows "map_option config (map_of (P_EVENT_SLOTS this') n) =
           map_option config (map_of (P_EVENT_SLOTS this) n)"
proof -
  define c where "c = map_option config (map_of (P_EVENT_SLOTS this) n)"
  have f: "map_option config (map_of (P_EVENT_SLOTS (finally_r e l i th)) n) =
      map_option config (map_of (P_EVENT_SLOTS th) n)" for e l i th
    by (cases "map_of (P_EVENT_SLOTS th) e") (auto simp: finally_r_def slot_set_listeners)
  have "map_option config (map_of (P_EVENT_SLOTS this') n) = c"
  proof (rule emit_r_invariant [of "\<lambda>th. map_option config (map_of (P_EVENT_SLOTS th) n) = c" rb,
      OF _ _ assms(2)])
    show "map_option config (map_of (P_EVENT_SLOTS this) n) = c" by (simp add: c_def)
  qed (simp_all only: assms(1) f)
  then show ?thesis by (simp add: c_def)
qed

text \<open>
  Claim C2, as stated: every operation keeps \<open>listeners.length \<le> maxListeners\<close> in every
  record. \<open>configEvent\<close> for an event does not: with two listeners on \<open>"x"\<close>,
  \<open>configEvent("x", {maxListeners: 1})\<close> leaves a record with two listeners and a limit
  of one. Nor does \<open>on\<close> once \<open>configEvent\<close> has set a limit that is not a whole number:
  with two listeners and \<open>maxListeners = 2.5\<close> a third \<open>on\<close> succeeds.
\<close>

theorem limit_broken_by_configEvent:
  "within_limits ex_two \<and>
   listenerCount ''x'' (configEvent (ForEvent ''x'' limit_one) ex_two) = Inr 2 \<and>
   maxListeners (config (slot_or_new ''x'' (configEvent (ForEvent ''x'' limit_one) ex_two))) =
     Some (Num 1) \<and>
   \<not> length_within 2 (Some (Num 1)) \<and>
   \<not> bounded (configEvent (ForEvent ''x'' limit_one) ex_two) \<and>
   listenerCount ''x'' ex_fraction = Inr 2 \<and>
   maxListeners (config (slot_or_new ''x'' ex_fraction)) = Some (Num (5 / 2)) \<and>
   length_within 2 (Some (Num (5 / 2))) \<and>
   fst (on ''x'' 3 ex_fraction) = Inr () \<and>
   listenerCount ''x'' (snd (on ''x'' 3 ex_fraction)) = Inr 3 \<and>
   maxListeners (config (slot_or_new ''x'' (snd (on ''x'' 3 ex_fraction)))) = Some (Num (5 / 2)) \<and>
   \<not> length_within 3 (Some (Num (5 / 2)))"
  by code_simp

text \<open>
  Claim C2, amended. Take an emitter in which the \<open>maxListeners\<close> of every record is a
  whole number (or \<open>Infinity\<close>) not below the number of its listeners, and the global
  \<open>maxListeners\<close> is a whole number (or \<open>Infinity\<close>) that is not negative. Then \<open>on\<close>,
  \<open>once\<close> (and their aliases \<open>addListener\<close>, \<open>addOnceListener\<close>), \<open>off\<close> and \<open>emit\<close> lead
  to such an emitter again; so does the global \<open>configEvent\<close> when the global
  \<open>maxListeners\<close> it leaves is such a number, and \<open>configEvent\<close> for an event when the
  \<open>maxListeners\<close> it leaves for the event is a whole number (or \<open>Infinity\<close>) not below
  the number of listeners of the event. On such an emitter \<open>on\<close> and \<open>once\<close> do one of
  three things: for a name without record that is inherited from \<open>Object.prototype\<close>
  they throw a \<open>TypeError\<close> and change nothing; or they fail with
  \<open>E_EXCEED_MAX_LISTENERS\<close>, with the event holding exactly \<open>maxListeners\<close> listeners,
  and change no list of listeners; or they append the callback at the end, within the
  limit: a listener is never dropped silently. (The \<open>emit\<close> of this statement has quiet
  listeners; with listeners that call the emitter, \<open>emit\<close> keeps the limits when every
  invocation of a listener does, which is \<open>emit_r_within_limits\<close> above.)
\<close>

theorem limits_preserved:
  assumes "within_limits this"
  shows "within_limits (snd (on event cb this)) \<and>
         within_limits (snd (once_m event cb this)) \<and>
         within_limits (snd (off event cbo this)) \<and>
         (limit_ok 0 (maxListeners (spread (P_CONFIG this) p)) \<longrightarrow>
            within_limits (configEvent (Global p) this)) \<and>
         (limit_ok (length (listeners (slot_or_new event this)))
            (maxListeners (spread (config (slot_or_new event this)) p)) \<longrightarrow>
            within_limits (configEvent (ForEvent event p) this)) \<and>
         (\<forall>r this' w' tr. emit beh event args this w = (r, this', w', tr) \<longrightarrow>
            within_limits this') \<and>
         ((map_of (P_EVENT_SLOTS this) event = None \<and> inherited this event \<and>
             on event cb this = (Inl TypeError, this)) \<or>
          (fst (on event cb this) = Inl E_EXCEED_MAX_LISTENERS \<and>
             listenerCount event this = Inr (length (listeners (slot_or_new event this))) \<and>
             maxListeners (config (slot_or_new event this)) =
               Some (Num (of_nat (length (listeners (slot_or_new event this))))) \<and>
             (\<forall>n. listeners_m n (snd (on event cb this)) = listeners_m n this)) \<or>
          (fst (on event cb this) = Inr () \<and>
             listeners_m event this = Inr (map callback (listeners (slot_or_new event this))) \<and>
             limit_ok (Suc (length (listeners (slot_or_new event this))))
               (maxListeners (config (slot_or_new event this))) \<and>
             listeners_m event (snd (on event cb this)) =
               Inr (map callback (listeners (slot_or_new event this)) @ [cb]))) \<and>
         ((map_of (P_EVENT_SLOTS this) event = None \<and> inherited this event \<and>
             once_m event cb this = (Inl TypeError, this)) \<or>
          (fst (once_m event cb this) = Inl E_EXCEED_MAX_LISTENERS \<and>
             listenerCount event this = Inr (length (listeners (slot_or_new event this))) \<and>
             maxListeners (config (slot_or_new event this)) =
               Some (Num (of_nat (length (listeners (slot_or_new event this))))) \<and>
             (\<forall>n. listeners_m n (snd (once_m event cb this)) = listeners_m n this)) \<or>
          (fst (once_m event cb this) = Inr () \<and>
             listeners_m event this = Inr (map callback (listeners (slot_or_new event this))) \<and>
             limit_ok (Suc (length (listeners (slot_or_new event this))))
               (maxListeners (config (slot_or_new event this))) \<and>
             listeners_m event (snd (once_m event cb this)) =
               Inr (map callback (listeners (slot_or_new event this)) @ [cb])))"
proof -
  note le = limit_ok_slot_or_new [OF assms, of event]
  have 1: "within_limits (snd (on event cb this))"
    using registration_within_limits [OF assms, of _ False event cb] by simp
  have 2: "within_limits (snd (once_m event cb this))"
    using registration_within_limits [OF assms, of _ True event cb] by simp
  have 3: "within_limits (snd (off event cbo this))"
    by (rule off_within_limits [OF assms])
  note 4 = configEvent_within_limits [OF assms]
  have 5: "\<forall>r this' w' tr. emit beh event args this w = (r, this', w', tr) \<longrightarrow>
            within_limits this'"
  proof (intro allI impI)
    fix r this' w' tr assume "emit beh event args this w = (r, this', w', tr)"
    then show "within_limits this'" by (rule emit_within_limits [OF assms])
  qed
  have 67: "(map_of (P_EVENT_SLOTS this) event = None \<and> inherited this event \<and>
             reg = (Inl TypeError, this)) \<or>
          (fst reg = Inl E_EXCEED_MAX_LISTENERS \<and>
             listenerCount event this = Inr (length (listeners (slot_or_new event this))) \<and>
             maxListeners (config (slot_or_new event this)) =
               Some (Num (of_nat (length (listeners (slot_or_new event this))))) \<and>
             (\<forall>n. listeners_m n (snd reg) = listeners_m n this)) \<or>
          (fst reg = Inr () \<and>
             listeners_m event this = Inr (map callback (listeners (slot_or_new event this))) \<and>
             limit_ok (Suc (length (listeners (slot_or_new event this))))
               (maxListeners (config (slot_or_new event this))) \<and>
             listeners_m event (snd reg) =
               Inr (map callback (listeners (slot_or_new event this)) @ [cb]))"
    if r: "reg = (if flag then once_m event cb this else on event cb this)" for reg flag
  proof (cases "map_of (P_EVENT_SLOTS this) event = None \<and> inherited this event")
    case True
    with r show ?thesis by (simp add: registration_inherited)
  next
    case False
    then have own: "map_of (P_EVENT_SLOTS this) event \<noteq> None \<or> \<not> inherited this event"
      by auto
    from registration_appends_or_fails [OF r own] show ?thesis
    proof (elim disjE conjE)
      assume "fst reg = Inl E_EXCEED_MAX_LISTENERS"
        "maxListeners (config (slot_or_new event this)) =
           Some (Num (of_nat (length (listeners (slot_or_new event this)))))"
        "\<forall>n. listeners_m n (snd reg) = listeners_m n this"
      with count_slot_or_new [OF own] show ?thesis by simp
    next
      assume a: "fst reg = Inr ()"
        "maxListeners (config (slot_or_new event this)) \<noteq>
           Some (Num (of_nat (length (listeners (slot_or_new event this)))))"
        "listeners_m event (snd reg) =
           Inr (map callback (listeners (slot_or_new event this)) @ [cb])"
      from limit_ok_Suc [OF le a(2)] a(1,3) listeners_slot_or_new [OF own]
      show ?thesis by simp
    qed
  qed
  note 6 = 67 [of "on event cb this" False, simplified]
  note 7 = 67 [of "once_m event cb this" True, simplified]
  from 1 2 3 4 5 6 7 show ?thesis by blast
qed


theorem limits_preserved_witness:
  "within_limits full_x \<and>
   within_limits (snd (on ''x'' 2 full_x)) \<and>
   within_limits (snd (once_m ''x'' 2 full_x)) \<and>
   within_limits (snd (off ''x'' (Some 1) full_x)) \<and>
   limit_ok 0 (maxListeners (spread (P_CONFIG full_x) limit_zero)) \<and>
   within_limits (configEvent (Global limit_zero) full_x) \<and>
   limit_ok (length (listeners (slot_or_new ''x'' full_x)))
     (maxListeners (spread (config (slot_or_new ''x'' full_x)) limit_one)) \<and>
   within_limits (configEvent (ForEvent ''x'' limit_one) full_x) \<and>
   emit ex_beh ''x'' [] full_x () =
     (Inr True, full_x, (),
      [Emit ''x'' [], Invoke ''x'' 1 [] (Thrown (VStr ''boom'')), Emit ''error'' [VStr ''boom'']]) \<and>
   fst (on ''x'' 2 full_x) = Inl E_EXCEED_MAX_LISTENERS \<and>
   within_limits ex_x \<and>
   emit ex_beh ''x'' [] ex_x () =
     (Inr True, set_listeners ''x'' [new_ListenerInfo 2 False] ex_x, (),
      [Emit ''x'' [], Invoke ''x'' 1 [] (Thrown (VStr ''boom'')), Emit ''error'' [VStr ''boom''],
       Invoke ''x'' 2 [] (Returned VUndefined), Invoke ''x'' 3 [] (Returned (VBool False))]) \<and>
   within_limits (set_listeners ''x'' [new_ListenerInfo 2 False] ex_x)"
proof -
  have a: "within_limits full_x" by code_simp
  have b: "limit_ok 0 (maxListeners (spread (P_CONFIG full_x) limit_zero))" by code_simp
  have c: "limit_ok (length (listeners (slot_or_new ''x'' full_x)))
     (maxListeners (spread (config (slot_or_new ''x'' full_x)) limit_one))" by code_simp
  have d: "emit ex_beh ''x'' [] full_x () =
     (Inr True, full_x, (),
      [Emit ''x'' [], Invoke ''x'' 1 [] (Thrown (VStr ''boom'')), Emit ''error'' [VStr ''boom'']])"
    by code_simp
  have e: "fst (on ''x'' 2 full_x) = Inl E_EXCEED_MAX_LISTENERS" by code_simp
  note t = limits_preserved [OF a, where event = "''x''" and cb = 2 and cbo = "Some 1"
      and beh = ex_beh and args = "[]" and w = "()"]
  note t0 = t [where p = limit_zero]
  from t0 have 1: "within_limits (snd (on ''x'' 2 full_x))"
    by - (elim conjE, assumption)
  from t0 have 2: "within_limits (snd (once_m ''x'' 2 full_x))"
    by - (elim conjE, assumption)
  from t0 have 3: "within_limits (snd (off ''x'' (Some 1) full_x))"
    by - (elim conjE, assumption)
  from t0 have 4: "limit_ok 0 (maxListeners (spread (P_CONFIG full_x) limit_zero)) \<longrightarrow>
            within_limits (configEvent (Global limit_zero) full_x)"
    by - (elim conjE, assumption)
  from t [where p = limit_one] have 5:
    "limit_ok (length (listeners (slot_or_new ''x'' full_x)))
       (maxListeners (spread (config (slot_or_new ''x'' full_x)) limit_one)) \<longrightarrow>
     within_limits (configEvent (ForEvent ''x'' limit_one) full_x)"
    by - (elim conjE, assumption)
  from 4 b have 4: "within_limits (configEvent (Global limit_zero) full_x)" by (rule mp)
  from 5 c have 5: "within_limits (configEvent (ForEvent ''x'' limit_one) full_x)" by (rule mp)
  have a': "within_limits ex_x" by code_simp
  have d': "emit ex_beh ''x'' [] ex_x () =
     (Inr True, set_listeners ''x'' [new_ListenerInfo 2 False] ex_x, (),
      [Emit ''x'' [], Invoke ''x'' 1 [] (Thrown (VStr ''boom'')), Emit ''error'' [VStr ''boom''],
       Invoke ''x'' 2 [] (Returned VUndefined), Invoke ''x'' 3 [] (Returned (VBool False))])"
    by code_simp
  from limits_preserved [OF a', where event = "''x''" and cb = 2 and cbo = None
      and p = limit_one and beh = ex_beh and args = "[]" and w = "()"]
  have "\<forall>r this' w' tr. emit ex_beh ''x'' [] ex_x () = (r, this', w', tr) \<longrightarrow>
          within_limits this'"
    by - (elim conjE, assumption)
  from this [THEN spec, THEN spec, THEN spec, THEN spec, THEN mp, OF d']
  have 6: "within_limits (set_listeners ''x'' [new_ListenerInfo 2 False] ex_x)" .
  show ?thesis by (intro conjI a 1 2 3 4 5 b c d e a' d' 6)
qed

lemma registration_configs:
  assumes r: "reg = (if flag then once_m event cb this else on event cb this)"
    and own: "map_of (P_EVENT_SLOTS this) event \<noteq> None \<or> \<not> inherited this event"
  shows "map_option config (map_of (P_EVENT_SLOTS (snd reg)) n) =
           (if n = event then Some (config (slot_or_new event this))
            else map_option config (map_of (P_EVENT_SLOTS this) n))"
proof (cases "n = event")
  case False
  with registration(2) [OF r own, of n] show ?thesis by simp
next
  case True
  show ?thesis
  proof (cases "maxListeners (config (slot_or_new event this)) =
                  Some (Num (of_nat (length (listeners (slot_or_new event this)))))")
    case eq: True
    with registration(3) [OF r own] True show ?thesis by simp
  next
    case False
    with registration(4) [OF r own] True show ?thesis by simp
  qed
qed

lemma registration_keeps_config:
  assumes r: "reg = (if flag then once_m event cb this else on event cb this)"
    and some: "map_of (P_EVENT_SLOTS this) n = Some ev"
  shows "map_option config (map_of (P_EVENT_SLOTS (snd reg)) n) = Some (config ev)"
proof (cases "map_of (P_EVENT_SLOTS this) event = None \<and> inherited this event")
  case True
  with r some show ?thesis by (simp add: registration_inherited)
next
  case False
  then have own: "map_of (P_EVENT_SLOTS this) event \<noteq> None \<or> \<not> inherited this event"
    by auto
  from registration_configs [OF r own, of n] some show ?thesis
    by (auto simp: slot_or_new_def)
qed

lemma registration_global:
  assumes "map_of (P_EVENT_SLOTS this) event = Some ev"
  shows "on event cb (configEvent (Global p) this) =
           (fst (on event cb this), configEvent (Global p) (snd (on event cb this)))"
    and "once_m event cb (configEvent (Global p) this) =
           (fst (once_m event cb this), configEvent (Global p) (snd (once_m event cb this)))"
  using assms by (simp_all add: on_def once_m_def set_listeners_def)

text \<open>
  Claim C8. A record takes its configuration from the global configuration at the moment
  it is created (by \<open>on\<close> or \<open>once\<close>), merged with the override when \<open>configEvent\<close> for
  the event creates it; a record is created for an event without record whose name is
  not inherited from \<open>Object.prototype\<close> (for an inherited name no record is made at
  all). A later global \<open>configEvent\<close> leaves the table of records as it is, so every
  existing record keeps its configuration, and \<open>on\<close> and \<open>once\<close> on an existing record
  succeed or fail as before. \<open>on\<close>, \<open>once\<close>, \<open>off\<close> and \<open>emit\<close> never change the
  configuration of an existing record. (The \<open>emit\<close> of this statement has quiet
  listeners; with listeners that call the emitter, \<open>emit\<close> keeps the configuration of
  a record when every invocation of a listener does, which is \<open>emit_r_keeps_config\<close>
  above.)
\<close>

theorem config_snapshot:
  "(map_of (P_EVENT_SLOTS this) event = None \<and> \<not> inherited this event \<longrightarrow>
      map_option config (map_of (P_EVENT_SLOTS (snd (on event cb this))) event) =
        Some (P_CONFIG this) \<and>
      map_option config (map_of (P_EVENT_SLOTS (snd (once_m event cb this))) event) =
        Some (P_CONFIG this) \<and>
      map_of (P_EVENT_SLOTS (configEvent (ForEvent event p) this)) event =
        Some (new_EventInfo (spread (P_CONFIG this) p))) \<and>
   (map_of (P_EVENT_SLOTS this) event = None \<and> inherited this event \<longrightarrow>
      P_EVENT_SLOTS (snd (on event cb this)) = P_EVENT_SLOTS this \<and>
      P_EVENT_SLOTS (snd (once_m event cb this)) = P_EVENT_SLOTS this \<and>
      P_EVENT_SLOTS (configEvent (ForEvent event p) this) = P_EVENT_SLOTS this) \<and>
   P_EVENT_SLOTS (configEvent (Global p) this) = P_EVENT_SLOTS this \<and>
   (\<forall>ev. map_of (P_EVENT_SLOTS this) n = Some ev \<longrightarrow>
      map_option config (map_of (P_EVENT_SLOTS (snd (on event cb this))) n) = Some (config ev) \<and>
      map_option config (map_of (P_EVENT_SLOTS (snd (once_m event cb this))) n) = Some (config ev) \<and>
      map_option config (map_of (P_EVENT_SLOTS (snd (off event cbo this))) n) = Some (config ev) \<and>
      (\<forall>r this' w' tr. emit beh event args this w = (r, this', w', tr) \<longrightarrow>
         map_option config (map_of (P_EVENT_SLOTS this') n) = Some (config ev)) \<and>
      on n cb (configEvent (Global p) this) =
        (fst (on n cb this), configEvent (Global p) (snd (on n cb this))) \<and>
      once_m n cb (configEvent (Global p) this) =
        (fst (once_m n cb this), configEvent (Global p) (snd (once_m n cb this))))"
proof (intro conjI impI allI)
  assume "map_of (P_EVENT_SLOTS this) event = None \<and> \<not> inherited this event"
  then have none: "map_of (P_EVENT_SLOTS this) event = None" and ni: "\<not> inherited this event"
    by simp_all
  from ni have own: "map_of (P_EVENT_SLOTS this) event \<noteq> None \<or> \<not> inherited this event"
    by simp
  from none have s: "config (slot_or_new event this) = P_CONFIG this"
    by (simp add: slot_or_new_def new_EventInfo_def)
  show "map_option config (map_of (P_EVENT_SLOTS (snd (on event cb this))) event) =
        Some (P_CONFIG this)"
    using registration_configs [of "on event cb this" False event cb this event, OF _ own] s
    by simp
  show "map_option config (map_of (P_EVENT_SLOTS (snd (once_m event cb this))) event) =
        Some (P_CONFIG this)"
    using registration_configs [of "once_m event cb this" True event cb this event, OF _ own] s
    by simp
  show "map_of (P_EVENT_SLOTS (configEvent (ForEvent event p) this)) event =
        Some (new_EventInfo (spread (P_CONFIG this) p))"
    using none ni by (simp add: slot_set_slot)
next
  assume "map_of (P_EVENT_SLOTS this) event = None \<and> inherited this event"
  then have none: "map_of (P_EVENT_SLOTS this) event = None" and i: "inherited this event"
    by simp_all
  show "P_EVENT_SLOTS (snd (on event cb this)) = P_EVENT_SLOTS this"
    using none i by (simp add: registration_inherited)
  show "P_EVENT_SLOTS (snd (once_m event cb this)) = P_EVENT_SLOTS this"
    using none i by (simp add: registration_inherited)
  show "P_EVENT_SLOTS (configEvent (ForEvent event p) this) = P_EVENT_SLOTS this"
    using none i by simp
next
  show "P_EVENT_SLOTS (configEvent (Global p) this) = P_EVENT_SLOTS this" by simp
next
  fix ev assume some: "map_of (P_EVENT_SLOTS this) n = Some ev"
  show "map_option config (map_of (P_EVENT_SLOTS (snd (on event cb this))) n) = Some (config ev)"
    using registration_keeps_config [of "on event cb this" False event cb this n ev] some
    by simp
  show "map_option config (map_of (P_EVENT_SLOTS (snd (once_m event cb this))) n) =
          Some (config ev)"
    using registration_keeps_config [of "once_m event cb this" True event cb this n ev] some
    by simp
  show "map_option config (map_of (P_EVENT_SLOTS (snd (off event cbo this))) n) = Some (config ev)"
  proof (cases "map_of (P_EVENT_SLOTS this) event")
    case None
    with some show ?thesis by (simp add: off_no_slot)
  next
    case (Some ev')
    from off_slot [OF Some, of cbo] some show ?thesis by (auto simp: slot_set_listeners)
  qed
  show "on n cb (configEvent (Global p) this) =
        (fst (on n cb this), configEvent (Global p) (snd (on n cb this)))"
    by (rule registration_global(1) [OF some])
  show "once_m n cb (configEvent (Global p) this) =
        (fst (once_m n cb this), configEvent (Global p) (snd (once_m n cb this)))"
    by (rule registration_global(2) [OF some])
  fix r this' w' tr
  assume e: "emit beh event args this w = (r, this', w', tr)"
  from emit_frame [OF e, unfolded frame_def] some obtain ls where
    "map_of (P_EVENT_SLOTS this') n = Some (ev\<lparr> listeners := ls \<rparr>)" by blast
  then show "map_option config (map_of (P_EVENT_SLOTS this') n) = Some (config ev)" by simp
qed


theorem config_snapshot_witness:
  "(map_of (P_EVENT_SLOTS full_x) ''y'' = None \<and> \<not> inherited full_x ''y'') \<and>
   map_option config (map_of (P_EVENT_SLOTS (snd (on ''y'' 5 full_x))) ''y'') =
     Some (P_CONFIG full_x) \<and>
   (map_of (P_EVENT_SLOTS full_x) ''toString'' = None \<and> inherited full_x ''toString'') \<and>
   P_EVENT_SLOTS (configEvent (ForEvent ''toString'' limit_zero) full_x) = P_EVENT_SLOTS full_x \<and>
   map_of (P_EVENT_SLOTS full_x) ''x'' = Some full_x_slot \<and>
   P_EVENT_SLOTS (configEvent (Global limit_zero) full_x) = P_EVENT_SLOTS full_x \<and>
   maxListeners (P_CONFIG (configEvent (Global limit_zero) full_x)) = Some (Num 0) \<and>
   maxListeners (config full_x_slot) = Some (Num 1) \<and>
   map_option config (map_of (P_EVENT_SLOTS (snd (off ''x'' None full_x))) ''x'') =
     Some (config full_x_slot) \<and>
   emit ex_beh ''x'' [] full_x () =
     (Inr True, full_x, (),
      [Emit ''x'' [], Invoke ''x'' 1 [] (Thrown (VStr ''boom'')), Emit ''error'' [VStr ''boom'']]) \<and>
   map_option config (map_of (P_EVENT_SLOTS full_x) ''x'') = Some (config full_x_slot) \<and>
   on ''x'' 5 (configEvent (Global limit_zero) full_x) =
     (Inl E_EXCEED_MAX_LISTENERS, configEvent (Global limit_zero) full_x)"
proof -
  have a: "map_of (P_EVENT_SLOTS full_x) ''y'' = None \<and> \<not> inherited full_x ''y''"
    by code_simp
  have a': "map_of (P_EVENT_SLOTS full_x) ''toString'' = None \<and> inherited full_x ''toString''"
    by code_simp
  have b: "map_of (P_EVENT_SLOTS full_x) ''x'' = Some full_x_slot" by code_simp
  have c: "maxListeners (P_CONFIG (configEvent (Global limit_zero) full_x)) = Some (Num 0)"
    by code_simp
  have c': "maxListeners (config full_x_slot) = Some (Num 1)" by code_simp
  have d: "emit ex_beh ''x'' [] full_x () =
     (Inr True, full_x, (),
      [Emit ''x'' [], Invoke ''x'' 1 [] (Thrown (VStr ''boom'')), Emit ''error'' [VStr ''boom'']])"
    by code_simp
  have e: "on ''x'' 5 full_x = (Inl E_EXCEED_MAX_LISTENERS, full_x)" by code_simp
  note t = config_snapshot [where this = full_x and cb = 5 and p = limit_zero
      and n = "''x''" and cbo = None and beh = ex_beh and args = "[]" and w = "()"]
  from t [where event = "''y''"] have
    "map_of (P_EVENT_SLOTS full_x) ''y'' = None \<and> \<not> inherited full_x ''y'' \<longrightarrow>
      map_option config (map_of (P_EVENT_SLOTS (snd (on ''y'' 5 full_x))) ''y'') =
        Some (P_CONFIG full_x) \<and>
      map_option config (map_of (P_EVENT_SLOTS (snd (once_m ''y'' 5 full_x))) ''y'') =
        Some (P_CONFIG full_x) \<and>
      map_of (P_EVENT_SLOTS (configEvent (ForEvent ''y'' limit_zero) full_x)) ''y'' =
        Some (new_EventInfo (spread (P_CONFIG full_x) limit_zero))"
    by - (elim conjE, assumption)
  from this a have
    "map_option config (map_of (P_EVENT_SLOTS (snd (on ''y'' 5 full_x))) ''y'') =
        Some (P_CONFIG full_x) \<and>
      map_option config (map_of (P_EVENT_SLOTS (snd (once_m ''y'' 5 full_x))) ''y'') =
        Some (P_CONFIG full_x) \<and>
      map_of (P_EVENT_SLOTS (configEvent (ForEvent ''y'' limit_zero) full_x)) ''y'' =
        Some (new_EventInfo (spread (P_CONFIG full_x) limit_zero))"
    by (rule mp)
  then have 1: "map_option config (map_of (P_EVENT_SLOTS (snd (on ''y'' 5 full_x))) ''y'') =
        Some (P_CONFIG full_x)"
    by (rule conjunct1)
  from t [where event = "''toString''"] have
    "map_of (P_EVENT_SLOTS full_x) ''toString'' = None \<and> inherited full_x ''toString'' \<longrightarrow>
      P_EVENT_SLOTS (snd (on ''toString'' 5 full_x)) = P_EVENT_SLOTS full_x \<and>
      P_EVENT_SLOTS (snd (once_m ''toString'' 5 full_x)) = P_EVENT_SLOTS full_x \<and>
      P_EVENT_SLOTS (configEvent (ForEvent ''toString'' limit_zero) full_x) =
        P_EVENT_SLOTS full_x"
    by - (elim conjE, assumption)
  from this a' have
    "P_EVENT_SLOTS (snd (on ''toString'' 5 full_x)) = P_EVENT_SLOTS full_x \<and>
      P_EVENT_SLOTS (snd (once_m ''toString'' 5 full_x)) = P_EVENT_SLOTS full_x \<and>
      P_EVENT_SLOTS (configEvent (ForEvent ''toString'' limit_zero) full_x) =
        P_EVENT_SLOTS full_x"
    by (rule mp)
  then have inh: "P_EVENT_SLOTS (configEvent (ForEvent ''toString'' limit_zero) full_x) =
        P_EVENT_SLOTS full_x"
    by - (elim conjE, assumption)
  note tx = t [where event = "''x''"]
  from tx have 2: "P_EVENT_SLOTS (configEvent (Global limit_zero) full_x) = P_EVENT_SLOTS full_x"
    by - (elim conjE, assumption)
  from tx have "\<forall>ev. map_of (P_EVENT_SLOTS full_x) ''x'' = Some ev \<longrightarrow>
      map_option config (map_of (P_EVENT_SLOTS (snd (on ''x'' 5 full_x))) ''x'') = Some (config ev) \<and>
      map_option config (map_of (P_EVENT_SLOTS (snd (once_m ''x'' 5 full_x))) ''x'') = Some (config ev) \<and>
      map_option config (map_of (P_EVENT_SLOTS (snd (off ''x'' None full_x))) ''x'') = Some (config ev) \<and>
      (\<forall>r this' w' tr. emit ex_beh ''x'' [] full_x () = (r, this', w', tr) \<longrightarrow>
         map_option config (map_of (P_EVENT_SLOTS this') ''x'') = Some (config ev)) \<and>
      on ''x'' 5 (configEvent (Global limit_zero) full_x) =
        (fst (on ''x'' 5 full_x), configEvent (Global limit_zero) (snd (on ''x'' 5 full_x))) \<and>
      once_m ''x'' 5 (configEvent (Global limit_zero) full_x) =
        (fst (once_m ''x'' 5 full_x), configEvent (Global limit_zero) (snd (once_m ''x'' 5 full_x)))"
    by - (elim conjE, assumption)
  then have "map_of (P_EVENT_SLOTS full_x) ''x'' = Some full_x_slot \<longrightarrow>
      map_option config (map_of (P_EVENT_SLOTS (snd (on ''x'' 5 full_x))) ''x'') = Some (config full_x_slot) \<and>
      map_option config (map_of (P_EVENT_SLOTS (snd (once_m ''x'' 5 full_x))) ''x'') = Some (config full_x_slot) \<and>
      map_option config (map_of (P_EVENT_SLOTS (snd (off ''x'' None full_x))) ''x'') = Some (config full_x_slot) \<and>
      (\<forall>r this' w' tr. emit ex_beh ''x'' [] full_x () = (r, this', w', tr) \<longrightarrow>
         map_option config (map_of (P_EVENT_SLOTS this') ''x'') = Some (config full_x_slot)) \<and>
      on ''x'' 5 (configEvent (Global limit_zero) full_x) =
        (fst (on ''x'' 5 full_x), configEvent (Global limit_zero) (snd (on ''x'' 5 full_x))) \<and>
      once_m ''x'' 5 (configEvent (Global limit_zero) full_x) =
        (fst (once_m ''x'' 5 full_x), configEvent (Global limit_zero) (snd (once_m ''x'' 5 full_x)))"
    by (rule spec)
  from this b have r: "
      map_option config (map_of (P_EVENT_SLOTS (snd (on ''x'' 5 full_x))) ''x'') = Some (config full_x_slot) \<and>
      map_option config (map_of (P_EVENT_SLOTS (snd (once_m ''x'' 5 full_x))) ''x'') = Some (config full_x_slot) \<and>
      map_option config (map_of (P_EVENT_SLOTS (snd (off ''x'' None full_x))) ''x'') = Some (config full_x_slot) \<and>
      (\<forall>r this' w' tr. emit ex_beh ''x'' [] full_x () = (r, this', w', tr) \<longrightarrow>
         map_option config (map_of (P_EVENT_SLOTS this') ''x'') = Some (config full_x_slot)) \<and>
      on ''x'' 5 (configEvent (Global limit_zero) full_x) =
        (fst (on ''x'' 5 full_x), configEvent (Global limit_zero) (snd (on ''x'' 5 full_x))) \<and>
      once_m ''x'' 5 (configEvent (Global limit_zero) full_x) =
        (fst (once_m ''x'' 5 full_x), configEvent (Global limit_zero) (snd (once_m ''x'' 5 full_x)))"
    by (rule mp)
  from r have 3: "map_option config (map_of (P_EVENT_SLOTS (snd (off ''x'' None full_x))) ''x'') =
      Some (config full_x_slot)"
    by - (elim conjE, assumption)
  from r have "\<forall>r this' w' tr. emit ex_beh ''x'' [] full_x () = (r, this', w', tr) \<longrightarrow>
         map_option config (map_of (P_EVENT_SLOTS this') ''x'') = Some (config full_x_slot)"
    by - (elim conjE, assumption)
  from this [THEN spec, THEN spec, THEN spec, THEN spec, THEN mp, OF d]
  have 5: "map_option config (map_of (P_EVENT_SLOTS full_x) ''x'') = Some (config full_x_slot)" .
  from r have "on ''x'' 5 (configEvent (Global limit_zero) full_x) =
        (fst (on ''x'' 5 full_x), configEvent (Global limit_zero) (snd (on ''x'' 5 full_x)))"
    by - (elim conjE, assumption)
  then have 4: "on ''x'' 5 (configEvent (Global limit_zero) full_x) =
     (Inl E_EXCEED_MAX_LISTENERS, configEvent (Global limit_zero) full_x)"
    by (simp only: e fst_conv snd_conv)
  show ?thesis by (intro conjI a [THEN conjunct1] a [THEN conjunct2] a' [THEN conjunct1]
      a' [THEN conjunct2] b c c' d 1 inh 2 3 4 5)
qed

section \<open>Properties of the filter manager\<close>








end
